theory Spec2Isabelle
  imports Complex_Main
begin

section \<open>Data model\<close>

text \<open>
  The explorer is TypeScript. Its values are modelled as follows.
  \<^item> A \<^verbatim>\<open>number\<close> is a \<^typ>\<open>real\<close>: arithmetic is exact, the rounding of IEEE doubles is
    outside the model. The loader only lets finite numbers through (\<^verbatim>\<open>coerceNumber\<close>), so
    record values are never \<^verbatim>\<open>NaN\<close> or infinite.
  \<^item> \<^verbatim>\<open>number | null\<close> is \<^typ>\<open>real option\<close>, with \<^term>\<open>None\<close> for \<^verbatim>\<open>null\<close>.
  \<^item> A \<^verbatim>\<open>Date\<close> is its time value \<^verbatim>\<open>getTime()\<close>, a whole number of milliseconds,
    so a \<^typ>\<open>int\<close>.
  \<^item> An array is a list; \<^verbatim>\<open>slice\<close>, \<^verbatim>\<open>map\<close> with an index, \<^verbatim>\<open>filter\<close> and
    \<^verbatim>\<open>reduce\<close> are written with their list counterparts.
\<close>

type_synonym date = int

text \<open>\<^verbatim>\<open>xs.slice(a, b)\<close> for \<open>0 \<le> a\<close>: the elements at the indices \<open>a \<le> j < min b (length xs)\<close>.\<close>

definition slice :: "'a list \<Rightarrow> nat \<Rightarrow> nat \<Rightarrow> 'a list" where
  "slice xs a b = take (b - a) (drop a xs)"

subsection \<open>\<^verbatim>\<open>lib/csv.ts\<close>: the normalized record\<close>

record DataRecord =
  period :: string
  date :: date
  year :: int
  month :: int
  "value" :: "real option"
  units :: string
  groupKey :: string
  groupLabel :: string
  seriesKey :: string
  seriesLabel :: string

subsection \<open>\<^verbatim>\<open>Map\<close> objects\<close>

text \<open>
  A JavaScript \<^verbatim>\<open>Map\<close> keeps its entries in the order of the first insertion of each
  key, so it is an association list with distinct keys: \<^verbatim>\<open>has\<close>, \<^verbatim>\<open>get\<close>, \<^verbatim>\<open>set\<close>
  (which keeps the place of a key that is already there), \<^verbatim>\<open>keys\<close> and \<^verbatim>\<open>values\<close>.
  The same list models a plain object used as a dictionary of string keys.
\<close>

definition Map_has :: "('k \<times> 'v) list \<Rightarrow> 'k \<Rightarrow> bool" where
  "Map_has m k = (map_of m k \<noteq> None)"

definition Map_get :: "('k \<times> 'v) list \<Rightarrow> 'k \<Rightarrow> 'v option" where
  "Map_get m k = map_of m k"

fun Map_set :: "('k \<times> 'v) list \<Rightarrow> 'k \<Rightarrow> 'v \<Rightarrow> ('k \<times> 'v) list" where
  "Map_set [] k v = [(k, v)]"
| "Map_set ((k', v') # m) k v = (if k' = k then (k, v) # m else (k', v') # Map_set m k v)"

definition Map_keys :: "('k \<times> 'v) list \<Rightarrow> 'k list" where
  "Map_keys m = map fst m"

definition Map_values :: "('k \<times> 'v) list \<Rightarrow> 'v list" where
  "Map_values m = map snd m"

subsection \<open>Rounding for export\<close>

text \<open>
  \<^verbatim>\<open>Number(x.toFixed(d))\<close>. For \<open>|x| < 10\<^sup>2\<^sup>1\<close>, \<^verbatim>\<open>toFixed\<close> takes the integer \<open>n\<close>
  with \<open>n / 10\<^sup>d\<close> nearest to \<open>|x|\<close>, the larger one on a tie, and prints it with \<open>d\<close>
  decimals and the sign of \<open>x\<close>; \<^verbatim>\<open>Number\<close> reads that text back. From \<open>10\<^sup>2\<^sup>1\<close> on,
  \<^verbatim>\<open>toFixed\<close> prints the number itself.
\<close>

definition toFixed_Number :: "real \<Rightarrow> nat \<Rightarrow> real" where
  "toFixed_Number x d =
     (if \<bar>x\<bar> \<ge> 10 ^ 21 then x
      else sgn x * of_int \<lfloor>\<bar>x\<bar> * 10 ^ d + 1 / 2\<rfloor> / 10 ^ d)"

subsection \<open>Numbers as text, keys of labels, sorting\<close>

text \<open>
  A template literal prints a whole number (below \<open>10\<^sup>2\<^sup>1\<close> in size) in decimal, with a
  minus sign when it is negative.
\<close>

definition digit_char :: "nat \<Rightarrow> char" where
  "digit_char n = char_of (48 + n)"

function string_of_nat :: "nat \<Rightarrow> string" where
  "string_of_nat n =
     (if n < 10 then [digit_char n] else string_of_nat (n div 10) @ [digit_char (n mod 10)])"
  by pat_completeness auto
termination
  by (relation "measure id") auto

declare string_of_nat.simps [simp del]

definition string_of_int :: "int \<Rightarrow> string" where
  "string_of_int i = (if i < 0 then CHR ''-'' # string_of_nat (nat (- i)) else string_of_nat (nat i))"

text \<open>
  \<^verbatim>\<open>xs.sort(cmp)\<close> is a stable sort. Where the comparison is \<^verbatim>\<open>localeCompare\<close>, whose
  order is the host's, the model takes \<open>le a b\<close> (for \<^verbatim>\<open>a.localeCompare(b) <= 0\<close>) as a
  parameter; where it is a difference of numbers, the model uses \<^const>\<open>sort_key\<close>.
\<close>

fun insort_by :: "('a \<Rightarrow> 'a \<Rightarrow> bool) \<Rightarrow> 'a \<Rightarrow> 'a list \<Rightarrow> 'a list" where
  "insort_by le x [] = [x]"
| "insort_by le x (y # ys) = (if le x y then x # y # ys else y # insort_by le x ys)"

definition sort_by :: "('a \<Rightarrow> 'a \<Rightarrow> bool) \<Rightarrow> 'a list \<Rightarrow> 'a list" where
  "sort_by le xs = foldr (insort_by le) xs []"

text \<open>\<^verbatim>\<open>Object.fromEntries\<close>: a later entry of a key that is already there replaces its value.\<close>

definition fromEntries :: "('k \<times> 'v) list \<Rightarrow> ('k \<times> 'v) list" where
  "fromEntries entries = foldl (\<lambda>obj (k, v). Map_set obj k v) [] entries"

section \<open>Moving-average smoothing\<close>

subsection \<open>\<^verbatim>\<open>views/percapita.ts\<close>: \<^verbatim>\<open>smoothValues\<close>\<close>

record SeriesPoint =
  date :: date
  "value" :: "real option"

definition smoothValues :: "SeriesPoint list \<Rightarrow> int \<Rightarrow> SeriesPoint list" where
  "smoothValues values windowSize =
     (if windowSize \<le> 1 then values
      else map (\<lambda>index.
             let point = values ! index;
                 windowStart = nat (max 0 (int index - windowSize + 1));
                 window = filter (\<lambda>item. SeriesPoint.value item \<noteq> None)
                            (slice values windowStart (index + 1))
             in if length window = 0 then point
                else let average =
                           foldl (\<lambda>sum item. sum + (case SeriesPoint.value item of Some v \<Rightarrow> v | None \<Rightarrow> 0))
                             0 window / real (length window)
                     in \<lparr>SeriesPoint.date = SeriesPoint.date point, SeriesPoint.value = Some average\<rparr>)
             [0..<length values])"

subsection \<open>\<^verbatim>\<open>views/spiritscheck.ts\<close>: \<^verbatim>\<open>smoothSeries\<close>\<close>

definition smoothSeries :: "real option list \<Rightarrow> int \<Rightarrow> real option list" where
  "smoothSeries values windowSize =
     (if windowSize \<le> 1 then values
      else map (\<lambda>index.
             let v = values ! index;
                 start = nat (max 0 (int index - windowSize + 1));
                 window = [item. Some item \<leftarrow> slice values start (index + 1)]
             in if length window = 0 then v
                else let average = foldl (\<lambda>sum item. sum + item) 0 window / real (length window)
                     in Some average)
             [0..<length values])"

subsection \<open>The smoothing rule as the specification words it\<close>




section \<open>Slugs\<close>

subsection \<open>\<^verbatim>\<open>lib/csv.ts\<close>: \<^verbatim>\<open>slugify\<close>\<close>

text \<open>
  A string is a \<^typ>\<open>string\<close>, one \<^typ>\<open>char\<close> per code unit, which covers the labels
  written in Latin-1. There \<^verbatim>\<open>toLowerCase\<close> moves \<open>A\<close>--\<open>Z\<close> and the accented capitals
  (codes 192 to 222, without the multiplication sign 215) up by 32 and keeps every other
  character.
\<close>

definition toLowerCase_char :: "char \<Rightarrow> char" where
  "toLowerCase_char c =
     (let n = (of_char c :: nat)
      in if (65 \<le> n \<and> n \<le> 90) \<or> (192 \<le> n \<and> n \<le> 222 \<and> n \<noteq> 215)
         then char_of (n + 32) else c)"

definition toLowerCase :: "string \<Rightarrow> string" where
  "toLowerCase s = map toLowerCase_char s"

text \<open>The character class \<^verbatim>\<open>[a-z0-9]\<close>, and the hyphen.\<close>

definition is_alnum :: "char \<Rightarrow> bool" where
  "is_alnum c =
     (let n = (of_char c :: nat) in (97 \<le> n \<and> n \<le> 122) \<or> (48 \<le> n \<and> n \<le> 57))"

definition is_hyphen :: "char \<Rightarrow> bool" where
  "is_hyphen c = (c = CHR ''-'')"

text \<open>
  \<^verbatim>\<open>.replace(/[^a-z0-9]+/g, '-')\<close>: scanning from the left, every maximal run of
  characters outside the class is replaced by one hyphen.
\<close>

function replace_non_alnum_runs :: "string \<Rightarrow> string" where
  "replace_non_alnum_runs [] = []"
| "replace_non_alnum_runs (c # cs) =
     (if \<not> is_alnum c
      then CHR ''-'' # replace_non_alnum_runs (dropWhile (\<lambda>d. \<not> is_alnum d) cs)
      else c # replace_non_alnum_runs cs)"
  by pat_completeness auto
termination
  by (relation "measure length") (auto simp: length_dropWhile_le less_Suc_eq_le)

text \<open>
  \<^verbatim>\<open>.replace(/^-+|-+$/g, '')\<close>: the first alternative removes the hyphens the string
  starts with, the second the hyphens the rest ends with.
\<close>

fun strip_trailing_hyphens :: "string \<Rightarrow> string" where
  "strip_trailing_hyphens [] = []"
| "strip_trailing_hyphens (c # cs) =
     (let rest = strip_trailing_hyphens cs
      in if is_hyphen c \<and> rest = [] then [] else c # rest)"

definition strip_edge_hyphens :: "string \<Rightarrow> string" where
  "strip_edge_hyphens s = strip_trailing_hyphens (dropWhile is_hyphen s)"

text \<open>\<^verbatim>\<open>.replace(/-{2,}/g, '-')\<close>: every run of two or more hyphens becomes one hyphen.\<close>

function collapse_hyphen_runs :: "string \<Rightarrow> string" where
  "collapse_hyphen_runs [] = []"
| "collapse_hyphen_runs [c] = [c]"
| "collapse_hyphen_runs (c # d # cs) =
     (if is_hyphen c \<and> is_hyphen d
      then CHR ''-'' # collapse_hyphen_runs (dropWhile is_hyphen cs)
      else c # collapse_hyphen_runs (d # cs))"
  by pat_completeness auto
termination
  by (relation "measure length") (auto simp: length_dropWhile_le less_Suc_eq_le le_SucI)

definition slugify :: "string \<Rightarrow> string" where
  "slugify v =
     collapse_hyphen_runs (strip_edge_hyphens (replace_non_alnum_runs (toLowerCase v)))"

text \<open>
  Every view has its own \<^verbatim>\<open>keyForLabel\<close>, always
  \<^verbatim>\<open>label.toLowerCase().replace(/[^a-z0-9]+/g, '-')\<close>.
\<close>

definition keyForLabel :: "string \<Rightarrow> string" where
  "keyForLabel label = replace_non_alnum_runs (toLowerCase label)"

subsection \<open>The slug as the specification words it\<close>

text \<open>
  The label lowercased, every maximal run of non-alphanumeric characters collapsed to a
  single hyphen (a character outside the class yields a hyphen exactly when it is the
  last of its run), and the hyphens at both ends removed.
\<close>

fun collapse_to_hyphen :: "string \<Rightarrow> string" where
  "collapse_to_hyphen [] = []"
| "collapse_to_hyphen [c] = (if is_alnum c then [c] else ''-'')"
| "collapse_to_hyphen (c # d # cs) =
     (if is_alnum c then c # collapse_to_hyphen (d # cs)
      else if is_alnum d then CHR ''-'' # collapse_to_hyphen (d # cs)
      else collapse_to_hyphen (d # cs))"

definition trim_hyphens :: "string \<Rightarrow> string" where
  "trim_hyphens s = rev (dropWhile (\<lambda>c. c = CHR ''-'') (rev (dropWhile (\<lambda>c. c = CHR ''-'') s)))"

definition spec_slug :: "string \<Rightarrow> string" where
  "spec_slug l = trim_hyphens (collapse_to_hyphen (toLowerCase l))"

subsection \<open>The shape of a slug\<close>

text \<open>Texts made of class characters and hyphens, without two hyphens in a row.\<close>

definition slug_chars :: "string \<Rightarrow> bool" where
  "slug_chars s = (\<forall>c \<in> set s. is_alnum c \<or> is_hyphen c)"

fun no_double_hyphen :: "string \<Rightarrow> bool" where
  "no_double_hyphen [] = True"
| "no_double_hyphen [c] = True"
| "no_double_hyphen (c # d # cs) = (\<not> (is_hyphen c \<and> is_hyphen d) \<and> no_double_hyphen (d # cs))"

section \<open>Spirits unit check\<close>

subsection \<open>\<^verbatim>\<open>views/spiritscheck.ts\<close>: \<^verbatim>\<open>preparePoints\<close> and \<^verbatim>\<open>exportRows\<close>\<close>

record SpiritsPoint =
  date :: date
  period :: string
  litres :: "real option"
  "proof" :: "real option"
  ratio :: "real option"

definition spirits_GROUP_LABEL :: string where
  "spirits_GROUP_LABEL = ''(DISC) Volume & Volume Per Head''"

definition spirits_SERIES_LABEL :: string where
  "spirits_SERIES_LABEL = ''Spirits''"

definition spirits_SMOOTH_WINDOW :: int where
  "spirits_SMOOTH_WINDOW = 4"

text \<open>
  The body of \<^verbatim>\<open>relevant.forEach\<close>: the point of the record's period is created on the
  first record of that period, then the record's value is stored by its unit. The point
  is an object held by the map, so the assignment is a \<^const>\<open>Map_set\<close> at its key.
\<close>

definition addRecord :: "(string \<times> SpiritsPoint) list \<Rightarrow> DataRecord \<Rightarrow> (string \<times> SpiritsPoint) list" where
  "addRecord byPeriod record =
     (let byPeriod1 =
            (if \<not> Map_has byPeriod (DataRecord.period record)
             then Map_set byPeriod (DataRecord.period record)
                    \<lparr>SpiritsPoint.date = DataRecord.date record,
                     SpiritsPoint.period = DataRecord.period record,
                     litres = None, proof = None, ratio = None\<rparr>
             else byPeriod)
      in case Map_get byPeriod1 (DataRecord.period record) of
           None \<Rightarrow> byPeriod1
         | Some point \<Rightarrow>
             if DataRecord.units record = ''Litres''
             then Map_set byPeriod1 (DataRecord.period record) (point\<lparr>litres := DataRecord.value record\<rparr>)
             else if DataRecord.units record = ''ProofL''
             then Map_set byPeriod1 (DataRecord.period record) (point\<lparr>proof := DataRecord.value record\<rparr>)
             else byPeriod1)"

definition setRatio :: "SpiritsPoint \<Rightarrow> SpiritsPoint" where
  "setRatio point =
     (case (litres point, proof point) of
        (Some l, Some p) \<Rightarrow> if p \<noteq> 0 then point\<lparr>ratio := Some (l / p)\<rparr> else point\<lparr>ratio := None\<rparr>
      | _ \<Rightarrow> point\<lparr>ratio := None\<rparr>)"

definition preparePoints :: "DataRecord list \<Rightarrow> SpiritsPoint list" where
  "preparePoints records =
     (let relevant = filter (\<lambda>record. DataRecord.groupLabel record = spirits_GROUP_LABEL
                                    \<and> DataRecord.seriesLabel record = spirits_SERIES_LABEL) records;
          byPeriod = foldl addRecord [] relevant;
          points = sort_key SpiritsPoint.date (Map_values byPeriod)
      in map setRatio points)"

text \<open>
  The rows of the download. The date column is the first ten characters of
  \<^verbatim>\<open>toISOString()\<close>; the text of an instant is the \<^verbatim>\<open>Date\<close> library's, taken here as
  the parameter \<open>toISOString\<close>.
\<close>

record SpiritsRow =
  date :: string
  litres :: "real option"
  "proof" :: "real option"
  ratio :: "real option"

definition spirits_exportRows :: "(date \<Rightarrow> string) \<Rightarrow> SpiritsPoint list \<Rightarrow> SpiritsRow list" where
  "spirits_exportRows toISOString points =
     map (\<lambda>point.
            \<lparr>SpiritsRow.date = slice (toISOString (SpiritsPoint.date point)) 0 10,
             SpiritsRow.litres = (case SpiritsPoint.litres point of None \<Rightarrow> None
                                   | Some l \<Rightarrow> Some (toFixed_Number l 3)),
             SpiritsRow.proof = (case SpiritsPoint.proof point of None \<Rightarrow> None
                                  | Some p \<Rightarrow> Some (toFixed_Number p 3)),
             SpiritsRow.ratio = (case SpiritsPoint.ratio point of None \<Rightarrow> None
                                  | Some r \<Rightarrow> Some (toFixed_Number r 3))\<rparr>)
         points"

subsection \<open>The ratio as the specification words it\<close>

definition spec_ratio :: "real option \<Rightarrow> real option \<Rightarrow> real option" where
  "spec_ratio l p =
     (if l = None \<or> p = None \<or> p = Some 0 then None else Some (the l / the p))"

section \<open>Double-precision arithmetic\<close>

text \<open>
  Where a branch or a bound of the program depends on the rounding of its arithmetic, a
  \<^verbatim>\<open>number\<close> is a double: a finite IEEE 754 binary64 value, written as the real
  number it denotes, an infinity, or \<^verbatim>\<open>NaN\<close>. The two zeros are one value; the model
  reads no sign of a zero.

  Every operation gives the exact result rounded to the nearest double, to the even
  mantissa on a tie. \<open>binade a\<close> is the exponent \<open>e\<close> with \<open>2\<^sup>e \<le> a < 2\<^sup>e\<^sup>+\<^sup>1\<close>;
  the doubles of that binade are the multiples of \<open>2\<^sup>e\<^sup>-\<^sup>5\<^sup>2\<close>, and below \<open>2\<^sup>-\<^sup>1\<^sup>0\<^sup>2\<^sup>2\<close> the
  multiples of \<open>2\<^sup>-\<^sup>1\<^sup>0\<^sup>7\<^sup>4\<close>. A result that rounds to \<open>2\<^sup>1\<^sup>0\<^sup>2\<^sup>4\<close> or more is an infinity.
\<close>

datatype double = Fin real | PlusInfinity | MinusInfinity | NotANumber

function binade :: "real \<Rightarrow> int" where
  "binade a =
     (if a \<le> 0 then 0
      else if 2 \<le> a then binade (a / 2) + 1
      else if a < 1 then binade (a * 2) - 1
      else 0)"
  by pat_completeness auto
termination
proof (relation "measure (\<lambda>a. nat \<bar>\<lfloor>log 2 a\<rfloor>\<bar>)")
  show "wf (measure (\<lambda>a. nat \<bar>\<lfloor>log 2 a\<rfloor>\<bar>))" by simp
next
  fix a :: real
  assume "\<not> a \<le> 0" "2 \<le> a"
  then have l: "log 2 (a / 2) = log 2 a - 1" by (simp add: log_divide)
  have "1 \<le> log 2 a" using \<open>2 \<le> a\<close> by (simp add: le_log_iff)
  then have "1 \<le> \<lfloor>log 2 a\<rfloor>" by linarith
  moreover have "\<lfloor>log 2 (a / 2)\<rfloor> = \<lfloor>log 2 a\<rfloor> - 1" unfolding l by linarith
  ultimately show "(a / 2, a) \<in> measure (\<lambda>a. nat \<bar>\<lfloor>log 2 a\<rfloor>\<bar>)" by simp
next
  fix a :: real
  assume a: "\<not> a \<le> 0" "\<not> 2 \<le> a" "a < 1"
  then have l: "log 2 (a * 2) = log 2 a + 1" by (simp add: log_mult)
  have "log 2 a < 0" using a by simp
  then have "\<lfloor>log 2 a\<rfloor> \<le> - 1" by linarith
  moreover have "\<lfloor>log 2 (a * 2)\<rfloor> = \<lfloor>log 2 a\<rfloor> + 1" unfolding l by linarith
  ultimately show "(a * 2, a) \<in> measure (\<lambda>a. nat \<bar>\<lfloor>log 2 a\<rfloor>\<bar>)" by simp
qed

declare binade.simps [simp del]

definition quantum :: "real \<Rightarrow> real" where
  "quantum a = 2 powi (max (binade a) (- 1022) - 52)"

definition round_even :: "real \<Rightarrow> int" where
  "round_even r =
     (let f = \<lfloor>r\<rfloor>; d = r - of_int f
      in if d < 1 / 2 then f else if 1 / 2 < d then f + 1 else if even f then f else f + 1)"

text \<open>The rounded size of a positive real: the nearest multiple of its quantum.\<close>

definition round_size :: "real \<Rightarrow> real" where
  "round_size a = of_int (round_even (a / quantum a)) * quantum a"

text \<open>
  A rounded size overflows when it is \<open>2\<^sup>1\<^sup>0\<^sup>2\<^sup>4\<close> or more, that is when its binade is 1024 or
  more.
\<close>

definition round_double :: "real \<Rightarrow> double" where
  "round_double x =
     (if x = 0 then Fin 0
      else if 1024 \<le> binade (round_size \<bar>x\<bar>)
      then (if x < 0 then MinusInfinity else PlusInfinity)
      else Fin (sgn x * round_size \<bar>x\<bar>))"

fun dneg :: "double \<Rightarrow> double" where
  "dneg (Fin a) = Fin (- a)"
| "dneg PlusInfinity = MinusInfinity"
| "dneg MinusInfinity = PlusInfinity"
| "dneg NotANumber = NotANumber"

fun dabs :: "double \<Rightarrow> double" where
  "dabs (Fin a) = Fin \<bar>a\<bar>"
| "dabs PlusInfinity = PlusInfinity"
| "dabs MinusInfinity = PlusInfinity"
| "dabs NotANumber = NotANumber"

fun dadd :: "double \<Rightarrow> double \<Rightarrow> double" where
  "dadd (Fin a) (Fin b) = round_double (a + b)"
| "dadd (Fin a) PlusInfinity = PlusInfinity"
| "dadd (Fin a) MinusInfinity = MinusInfinity"
| "dadd PlusInfinity (Fin b) = PlusInfinity"
| "dadd PlusInfinity PlusInfinity = PlusInfinity"
| "dadd MinusInfinity (Fin b) = MinusInfinity"
| "dadd MinusInfinity MinusInfinity = MinusInfinity"
| "dadd PlusInfinity MinusInfinity = NotANumber"
| "dadd MinusInfinity PlusInfinity = NotANumber"
| "dadd NotANumber y = NotANumber"
| "dadd x NotANumber = NotANumber"

definition dsub :: "double \<Rightarrow> double \<Rightarrow> double" where
  "dsub x y = dadd x (dneg y)"

text \<open>The sign of a value that is not \<^verbatim>\<open>NaN\<close>: negative, zero or positive.\<close>

fun dsign :: "double \<Rightarrow> int" where
  "dsign (Fin a) = (if a < 0 then - 1 else if a = 0 then 0 else 1)"
| "dsign PlusInfinity = 1"
| "dsign MinusInfinity = - 1"
| "dsign NotANumber = 0"

definition infinity_of_sign :: "int \<Rightarrow> double" where
  "infinity_of_sign s = (if s < 0 then MinusInfinity else PlusInfinity)"

fun dmul :: "double \<Rightarrow> double \<Rightarrow> double" where
  "dmul (Fin a) (Fin b) = round_double (a * b)"
| "dmul NotANumber y = NotANumber"
| "dmul x NotANumber = NotANumber"
| "dmul x y =
     (if dsign x = 0 \<or> dsign y = 0 then NotANumber else infinity_of_sign (dsign x * dsign y))"

text \<open>
  Division. A zero divisor counts as \<open>+0\<close>: the only divisor of the program is a sum of
  absolute values.
\<close>

fun ddiv :: "double \<Rightarrow> double \<Rightarrow> double" where
  "ddiv (Fin a) (Fin b) =
     (if b = 0 then (if a = 0 then NotANumber else infinity_of_sign (dsign (Fin a)))
      else round_double (a / b))"
| "ddiv NotANumber y = NotANumber"
| "ddiv x NotANumber = NotANumber"
| "ddiv (Fin a) y = Fin 0"
| "ddiv x (Fin b) = infinity_of_sign (if b < 0 then - dsign x else dsign x)"
| "ddiv x y = NotANumber"

text \<open>\<^verbatim>\<open>x < 0\<close>.\<close>

fun dlt0 :: "double \<Rightarrow> bool" where
  "dlt0 (Fin a) = (a < 0)"
| "dlt0 MinusInfinity = True"
| "dlt0 x = False"

subsection \<open>Doubles among the reals\<close>

text \<open>
  The exponent that fixes the quantum of a positive real, and the reals that are doubles:
  those that rounding leaves as they are.
\<close>

definition expo :: "real \<Rightarrow> int" where
  "expo a = max (binade a) (- 1022)"

definition is_double :: "real \<Rightarrow> bool" where
  "is_double u = (round_double u = Fin u)"

section \<open>Crossover detection\<close>

subsection \<open>\<^verbatim>\<open>views/percapita.ts\<close>: \<^verbatim>\<open>findCrossovers\<close>\<close>

record SeriesData =
  key :: string
  label :: string
  "values" :: "SeriesPoint list"

text \<open>
  The date of a crossover is a \<^verbatim>\<open>Date\<close> that the detector makes itself, so it can be
  the invalid date; its value is a computed number.
\<close>

datatype DateValue = TimeValue int | InvalidDate

record CrossoverPoint =
  date :: DateValue
  labelA :: string
  labelB :: string
  "value" :: double

text \<open>
  Reading a property of \<^verbatim>\<open>undefined\<close> throws a \<^verbatim>\<open>TypeError\<close>, which ends the whole
  call. An array read past its end gives \<^verbatim>\<open>undefined\<close>.
\<close>

datatype js_error = TypeError

definition at_index :: "'a list \<Rightarrow> nat \<Rightarrow> 'a option" where
  "at_index xs i = (if i < length xs then Some (xs ! i) else None)"

text \<open>
  \<^verbatim>\<open>new Date(t)\<close> for a number \<open>t\<close> stores \<^verbatim>\<open>TimeClip(t)\<close>: the invalid date when \<open>t\<close>
  is not finite or further than \<open>8.64 \<times> 10\<^sup>1\<^sup>5\<close> ms from the epoch, otherwise \<open>t\<close> with
  its fraction dropped (rounded toward zero), so that \<^verbatim>\<open>new Date(0.5).getTime()\<close> is \<open>0\<close>.
  \<open>truncate_ms\<close> is that rounding; the time value of a valid date is a double.
\<close>

definition truncate_ms :: "real \<Rightarrow> int" where
  "truncate_ms t = (if t \<ge> 0 then \<lfloor>t\<rfloor> else \<lceil>t\<rceil>)"

definition new_Date :: "double \<Rightarrow> DateValue" where
  "new_Date x =
     (case x of
        Fin t \<Rightarrow> if \<bar>t\<bar> \<le> 8640000000000000 then TimeValue (truncate_ms t) else InvalidDate
      | _ \<Rightarrow> InvalidDate)"

definition getTime :: "date \<Rightarrow> double" where
  "getTime d = Fin (real_of_int d)"

text \<open>
  The body of the innermost loop, for \<open>1 \<le> index < length (values seriesA)\<close>: the
  crossings it pushes (none or one), or the error it throws. The four \<^verbatim>\<open>.value\<close> reads
  happen from left to right and stop at the first \<^verbatim>\<open>null\<close>.
\<close>

definition crossingsAt :: "SeriesData \<Rightarrow> SeriesData \<Rightarrow> nat \<Rightarrow> js_error + CrossoverPoint list" where
  "crossingsAt seriesA seriesB index =
     (let prevA = SeriesData.values seriesA ! (index - 1);
          currA = SeriesData.values seriesA ! index;
          prevB = at_index (SeriesData.values seriesB) (index - 1);
          currB = at_index (SeriesData.values seriesB) index
      in (case SeriesPoint.value prevA of None \<Rightarrow> Inr [] | Some prevA_value \<Rightarrow>
         (case SeriesPoint.value currA of None \<Rightarrow> Inr [] | Some currA_value \<Rightarrow>
         (case prevB of None \<Rightarrow> Inl TypeError | Some prevB' \<Rightarrow>
         (case SeriesPoint.value prevB' of None \<Rightarrow> Inr [] | Some prevB_value \<Rightarrow>
         (case currB of None \<Rightarrow> Inl TypeError | Some currB' \<Rightarrow>
         (case SeriesPoint.value currB' of None \<Rightarrow> Inr [] | Some currB_value \<Rightarrow>
           (let prevDiff = dsub (Fin prevA_value) (Fin prevB_value);
                currDiff = dsub (Fin currA_value) (Fin currB_value)
            in if prevDiff = Fin 0
               then Inr [\<lparr>CrossoverPoint.date = TimeValue (SeriesPoint.date prevA),
                          labelA = SeriesData.label seriesA, labelB = SeriesData.label seriesB,
                          value = Fin prevA_value\<rparr>]
               else if dlt0 (dmul prevDiff currDiff)
               then (let totalDiff = dadd (dabs prevDiff) (dabs currDiff);
                         ratio = ddiv (dabs prevDiff) totalDiff;
                         interpolatedTime =
                           dadd (getTime (SeriesPoint.date prevA))
                             (dmul (dsub (getTime (SeriesPoint.date currA))
                                         (getTime (SeriesPoint.date prevA))) ratio);
                         v = dadd (Fin prevA_value)
                               (dmul (dsub (Fin currA_value) (Fin prevA_value)) ratio)
                     in Inr [\<lparr>CrossoverPoint.date = new_Date interpolatedTime,
                                labelA = SeriesData.label seriesA, labelB = SeriesData.label seriesB,
                                value = v\<rparr>])
               else Inr []))))))))"

text \<open>A loop that pushes what each round yields and stops at the first error.\<close>

fun for_each :: "('a \<Rightarrow> js_error + 'b list) \<Rightarrow> 'a list \<Rightarrow> js_error + 'b list" where
  "for_each body [] = Inr []"
| "for_each body (x # xs) =
     (case body x of
        Inl e \<Rightarrow> Inl e
      | Inr ys \<Rightarrow> (case for_each body xs of Inl e \<Rightarrow> Inl e | Inr zs \<Rightarrow> Inr (ys @ zs)))"

definition findCrossovers :: "SeriesData list \<Rightarrow> js_error + CrossoverPoint list" where
  "findCrossovers series =
     for_each (\<lambda>i.
       for_each (\<lambda>j.
         let seriesA = series ! i; seriesB = series ! j
         in for_each (crossingsAt seriesA seriesB) [1..<length (SeriesData.values seriesA)])
       [i + 1..<length series])
     [0..<length series]"

subsection \<open>The crossing as the specification words it\<close>

text \<open>
  The weight \<open>|diff(i-1)| / (|diff(i-1)| + |diff(i)|)\<close> and the point at that weight
  between two sample values (times or series values), each operation rounded; and what
  it is for two computed differences to have opposite signs: one is below zero and the
  other above.
\<close>

definition weight_of_diffs :: "double \<Rightarrow> double \<Rightarrow> double" where
  "weight_of_diffs prevDiff currDiff = ddiv (dabs prevDiff) (dadd (dabs prevDiff) (dabs currDiff))"

definition interpolate :: "double \<Rightarrow> double \<Rightarrow> double \<Rightarrow> double" where
  "interpolate a b r = dadd a (dmul (dsub b a) r)"

definition opposite_signs :: "double \<Rightarrow> double \<Rightarrow> bool" where
  "opposite_signs x y = ((dlt0 x \<and> dlt0 (dneg y)) \<or> (dlt0 (dneg x) \<and> dlt0 y))"

subsection \<open>The crossings of one pair of series\<close>

text \<open>What the rounds \<open>1 \<le> k < n\<close> push for the series at the positions \<open>i\<close> and \<open>j\<close>.\<close>

definition pair_crossings :: "SeriesData list \<Rightarrow> nat \<Rightarrow> nat \<Rightarrow> nat \<Rightarrow> CrossoverPoint list" where
  "pair_crossings series n i j =
     concat (map (\<lambda>k. projr (crossingsAt (series ! i) (series ! j) k)) [1..<n])"

section \<open>Seasonality heatmap\<close>

subsection \<open>\<^verbatim>\<open>views/seasonality.ts\<close>: \<^verbatim>\<open>prepareCells\<close> and \<^verbatim>\<open>exportRows\<close>\<close>

record HeatmapCell =
  year :: int
  month :: int
  "value" :: "real option"

text \<open>
  The body of \<^verbatim>\<open>filtered.forEach\<close>: a record without a value is skipped; otherwise its
  value is added to the sum of its month in the map of its year.
\<close>

definition addToYear :: "(int \<times> (int \<times> real) list) list \<Rightarrow> DataRecord \<Rightarrow> (int \<times> (int \<times> real) list) list" where
  "addToYear byYear record =
     (case DataRecord.value record of
        None \<Rightarrow> byYear
      | Some v \<Rightarrow>
          (let byYear1 = (if \<not> Map_has byYear (DataRecord.year record)
                          then Map_set byYear (DataRecord.year record) [] else byYear)
           in (case Map_get byYear1 (DataRecord.year record) of
                 None \<Rightarrow> byYear1
               | Some inner \<Rightarrow>
                   Map_set byYear1 (DataRecord.year record)
                     (Map_set inner (DataRecord.month record)
                        ((case Map_get inner (DataRecord.month record) of None \<Rightarrow> 0 | Some s \<Rightarrow> s) + v)))))"

definition collectByYear :: "DataRecord list \<Rightarrow> string \<Rightarrow> string \<Rightarrow> (int \<times> (int \<times> real) list) list" where
  "collectByYear records groupLabel' seriesLabel' =
     (let filtered = filter (\<lambda>record. DataRecord.groupLabel record = groupLabel'
                                    \<and> DataRecord.seriesLabel record = seriesLabel') records
      in foldl addToYear [] filtered)"

text \<open>The sum of one year's map, and the four cells of one year.\<close>

definition yearTotal :: "(int \<times> real) list \<Rightarrow> real" where
  "yearTotal inner = foldl (\<lambda>sum v. sum + v) 0 (Map_values inner)"

definition cellsOfYear :: "(int \<times> (int \<times> real) list) list \<Rightarrow> bool \<Rightarrow> int \<Rightarrow> HeatmapCell list" where
  "cellsOfYear byYear normalize' y =
     (let inner = (case Map_get byYear y of Some m \<Rightarrow> m | None \<Rightarrow> []);
          total = yearTotal inner
      in map (\<lambda>m.
           let v = Map_get inner m
           in if normalize'
              then (let share = (case v of None \<Rightarrow> None
                                 | Some x \<Rightarrow> if total = 0 then None else Some (x / total))
                    in \<lparr>HeatmapCell.year = y, month = m, value = share\<rparr>)
              else \<lparr>HeatmapCell.year = y, month = m, value = v\<rparr>)
         [3, 6, 9, 12])"

definition prepareCells :: "DataRecord list \<Rightarrow> string \<Rightarrow> string \<Rightarrow> bool \<Rightarrow> HeatmapCell list" where
  "prepareCells records groupLabel' seriesLabel' normalize' =
     (let byYear = collectByYear records groupLabel' seriesLabel';
          years = sort (Map_keys byYear)
      in concat (map (cellsOfYear byYear normalize') years))"

text \<open>The rows of the download, from the cells and the switch of the last rendering.\<close>

definition seasonality_exportRows :: "HeatmapCell list \<Rightarrow> bool \<Rightarrow> HeatmapCell list" where
  "seasonality_exportRows cachedCells normalize' =
     map (\<lambda>cell.
            \<lparr>HeatmapCell.year = HeatmapCell.year cell, month = HeatmapCell.month cell,
             value = (case HeatmapCell.value cell of None \<Rightarrow> None
                      | Some v \<Rightarrow> Some (toFixed_Number v (if normalize' then 4 else 3)))\<rparr>)
         cachedCells"

section \<open>Long-run volumes and shares\<close>

subsection \<open>\<^verbatim>\<open>views/longrun.ts\<close>: \<^verbatim>\<open>buildSeries\<close> and \<^verbatim>\<open>createExportRows\<close>\<close>

text \<open>
  A share read from a key that the object does not have is \<^verbatim>\<open>undefined\<close>, and dividing
  it gives \<^verbatim>\<open>NaN\<close>; this can happen only when \<^verbatim>\<open>buildSeries\<close> is called with other
  labels than \<^verbatim>\<open>SERIES_LABELS\<close>. The shares are therefore numbers with \<^verbatim>\<open>NaN\<close>.
\<close>

datatype jsnum = Num real | NaN

record PointShare =
  date :: date
  total :: real
  shares :: "(string \<times> jsnum) list"

record ChartPoint =
  date :: date
  "value" :: "jsnum option"

record ChartSeries =
  key :: string
  label :: string
  "values" :: "ChartPoint list"

definition longrun_SERIES_LABELS :: "string list" where
  "longrun_SERIES_LABELS = [''Total beer'', ''Total wine'', ''Total spirits'']"

definition collectGroupData :: "DataRecord list \<Rightarrow> string \<Rightarrow> DataRecord list" where
  "collectGroupData records groupLabel' = filter (\<lambda>record. DataRecord.groupLabel record = groupLabel') records"

text \<open>
  The body of the inner \<^verbatim>\<open>forEach\<close>: the point of the record's quarter is created on the
  first record of that quarter; a record with a value adds it to the point's total and
  stores it at the key of its series.
\<close>

definition addToPoint :: "string list \<Rightarrow> (string \<times> PointShare) list \<Rightarrow> DataRecord \<Rightarrow> (string \<times> PointShare) list" where
  "addToPoint labels points record =
     (let k = string_of_int (DataRecord.year record) @ ''-'' @ string_of_int (DataRecord.month record);
          points1 = (if \<not> Map_has points k
                     then Map_set points k
                            \<lparr>PointShare.date = DataRecord.date record, total = 0,
                             shares = fromEntries (map (\<lambda>name. (keyForLabel name, Num 0)) labels)\<rparr>
                     else points)
      in (case Map_get points1 k of
            None \<Rightarrow> points1
          | Some entry \<Rightarrow>
              (case DataRecord.value record of
                 None \<Rightarrow> points1
               | Some v \<Rightarrow>
                   Map_set points1 k
                     (entry\<lparr>total := PointShare.total entry + v,
                            shares := Map_set (PointShare.shares entry)
                                        (keyForLabel (DataRecord.seriesLabel record)) (Num v)\<rparr>))))"

definition collectPoints :: "DataRecord list \<Rightarrow> string list \<Rightarrow> (string \<times> PointShare) list" where
  "collectPoints records labels =
     foldl (\<lambda>points label'.
              foldl (addToPoint labels) points
                (filter (\<lambda>record. DataRecord.seriesLabel record = label') records))
       [] labels"

text \<open>
  The body of \<^verbatim>\<open>orderedPoints.forEach\<close>: with a zero total every share of
  \<^verbatim>\<open>SERIES_LABELS\<close> is set to \<open>0\<close>, otherwise each is divided by the total.
\<close>

definition toShares :: "PointShare \<Rightarrow> PointShare" where
  "toShares point =
     (let total = PointShare.total point
      in if total = 0
         then point\<lparr>shares := foldl (\<lambda>sh label'. Map_set sh (keyForLabel label') (Num 0))
                                (PointShare.shares point) longrun_SERIES_LABELS\<rparr>
         else point\<lparr>shares := foldl (\<lambda>sh label'.
                                  let k = keyForLabel label'
                                  in Map_set sh k (case Map_get sh k of
                                                     Some (Num s) \<Rightarrow> Num (s / total)
                                                   | _ \<Rightarrow> NaN))
                                (PointShare.shares point) longrun_SERIES_LABELS\<rparr>)"

definition buildSeries :: "DataRecord list \<Rightarrow> string list \<Rightarrow> ChartSeries list \<times> PointShare list" where
  "buildSeries records labels =
     (let points = collectPoints records labels;
          orderedPoints = map toShares (sort_key PointShare.date (Map_values points));
          series = map (\<lambda>label'.
                     \<lparr>ChartSeries.key = keyForLabel label', label = label',
                      values = map (\<lambda>point.
                                 \<lparr>ChartPoint.date = PointShare.date point,
                                  value = (if PointShare.total point = 0 then None
                                           else (case Map_get (PointShare.shares point) (keyForLabel label') of
                                                   Some (Num s) \<Rightarrow> Some (Num (s * PointShare.total point))
                                                 | _ \<Rightarrow> Some NaN))\<rparr>)
                               orderedPoints\<rparr>)
                   labels
      in (series, orderedPoints))"

text \<open>
  The rows of the download. The calendar year and month of a date are the \<^verbatim>\<open>Date\<close>
  library's (in local time), taken here as the parameters \<open>getFullYear\<close> and \<open>getMonth\<close>.
  A row has the fixed columns \<^verbatim>\<open>year\<close>, \<^verbatim>\<open>month\<close> and \<^verbatim>\<open>total_litres\<close>, then one
  share column per active series. \<^verbatim>\<open>toFixed\<close> of \<^verbatim>\<open>NaN\<close> prints \<^verbatim>\<open>NaN\<close>.
\<close>

record LongRunRow =
  year :: int
  month :: int
  total_litres :: real
  share_columns :: "(string \<times> jsnum) list"

definition toFixed_jsnum :: "jsnum \<Rightarrow> nat \<Rightarrow> jsnum" where
  "toFixed_jsnum x d = (case x of Num v \<Rightarrow> Num (toFixed_Number v d) | NaN \<Rightarrow> NaN)"

definition createExportRows ::
  "(date \<Rightarrow> int) \<Rightarrow> (date \<Rightarrow> int) \<Rightarrow> DataRecord list \<Rightarrow> string \<Rightarrow> string set \<Rightarrow> LongRunRow list" where
  "createExportRows getFullYear getMonth records group' activeKeys =
     (let filtered = collectGroupData records group';
          points = snd (buildSeries filtered longrun_SERIES_LABELS)
      in map (\<lambda>point.
           \<lparr>LongRunRow.year = getFullYear (PointShare.date point),
            month = getMonth (PointShare.date point) + 1,
            total_litres = toFixed_Number (PointShare.total point) 3,
            share_columns =
              concat (map (\<lambda>label'.
                        let k = keyForLabel label'
                        in if k \<notin> activeKeys then []
                           else [(k @ ''_share'',
                                  toFixed_jsnum (case Map_get (PointShare.shares point) k of
                                                   Some s \<Rightarrow> s | None \<Rightarrow> Num 0) 4)])
                      longrun_SERIES_LABELS)\<rparr>)
         points)"

section \<open>Beer strength composition\<close>

subsection \<open>\<^verbatim>\<open>views/beerstrength.ts\<close>: \<^verbatim>\<open>aggregateRecords\<close> and \<^verbatim>\<open>exportRows\<close>\<close>

record AggregatedBar =
  key :: string
  label :: string
  total :: real
  "values" :: "(string \<times> real) list"

definition CATEGORY_LABELS :: "string list" where
  "CATEGORY_LABELS =
     [''Beer containing not more than 1.150% alcohol'',
      ''Beer containing between 1.151% and 2.500% alc'',
      ''Beer containing between 2.501% and 4.350% alc'',
      ''Beer containing between 4.351% and 5.000% alc'',
      ''Beer containing more than 5.00% alcohol'']"

definition beerstrength_GROUP_LABEL :: string where
  "beerstrength_GROUP_LABEL = ''Litres of Beverage''"

text \<open>
  The key and the label of a record's bucket. The decade is \<^verbatim>\<open>Math.floor(year / 10) * 10\<close>;
  its label \<^verbatim>\<open>1990-1999\<close> is made of the key without its last character and of the
  number read back from it plus nine, which is the decade plus nine.
\<close>

definition bucketKey :: "bool \<Rightarrow> int \<Rightarrow> string" where
  "bucketKey byDecade y =
     (if byDecade then string_of_int (y div 10 * 10) @ ''s'' else string_of_int y)"

definition bucketLabel :: "bool \<Rightarrow> int \<Rightarrow> string" where
  "bucketLabel byDecade y =
     (if byDecade
      then butlast (bucketKey byDecade y) @ ''-'' @ string_of_int (y div 10 * 10 + 9)
      else bucketKey byDecade y)"

text \<open>
  \<^verbatim>\<open>bar.values[categoryKey] += v\<close>. The object is created with every category key, and
  \<open>categoryKey\<close> is the key of a category, so the key is always there; on a missing key
  the sum would be \<^verbatim>\<open>NaN\<close>, which the model leaves out by not storing anything.
\<close>

definition addAt :: "(string \<times> real) list \<Rightarrow> string \<Rightarrow> real \<Rightarrow> (string \<times> real) list" where
  "addAt obj k v = (case Map_get obj k of Some s \<Rightarrow> Map_set obj k (s + v) | None \<Rightarrow> obj)"

text \<open>The body of \<^verbatim>\<open>filtered.forEach\<close>.\<close>

definition addToBar :: "bool \<Rightarrow> string set \<Rightarrow> (string \<times> AggregatedBar) list \<Rightarrow> DataRecord \<Rightarrow> (string \<times> AggregatedBar) list" where
  "addToBar byDecade activeKeys bars record =
     (case DataRecord.value record of
        None \<Rightarrow> bars
      | Some v \<Rightarrow>
          if DataRecord.seriesLabel record \<notin> set CATEGORY_LABELS then bars
          else (let categoryKey = keyForLabel (DataRecord.seriesLabel record)
                in if categoryKey \<notin> activeKeys then bars
                   else (let groupKey' = bucketKey byDecade (DataRecord.year record);
                             bars1 = (if \<not> Map_has bars groupKey'
                                      then Map_set bars groupKey'
                                             \<lparr>AggregatedBar.key = groupKey',
                                              label = bucketLabel byDecade (DataRecord.year record),
                                              total = 0,
                                              values = fromEntries (map (\<lambda>l. (keyForLabel l, 0)) CATEGORY_LABELS)\<rparr>
                                      else bars)
                         in (case Map_get bars1 groupKey' of
                               None \<Rightarrow> bars1
                             | Some bar \<Rightarrow>
                                 Map_set bars1 groupKey'
                                   (bar\<lparr>total := AggregatedBar.total bar + v,
                                        values := addAt (AggregatedBar.values bar) categoryKey v\<rparr>)))))"

text \<open>The share step: \<^verbatim>\<open>bar.total || 1\<close> divides every value, and the total becomes \<open>1\<close>.\<close>

definition toShare :: "AggregatedBar \<Rightarrow> AggregatedBar" where
  "toShare bar =
     (let total = (if AggregatedBar.total bar = 0 then 1 else AggregatedBar.total bar)
      in bar\<lparr>values := map (\<lambda>(k, v). (k, v / total)) (AggregatedBar.values bar), total := 1\<rparr>)"

definition aggregateRecords ::
  "(string \<Rightarrow> string \<Rightarrow> bool) \<Rightarrow> DataRecord list \<Rightarrow> bool \<Rightarrow> bool \<Rightarrow> string set \<Rightarrow> AggregatedBar list" where
  "aggregateRecords localeCompare_le records byDecade share activeKeys =
     (let filtered = filter (\<lambda>record. DataRecord.groupLabel record = beerstrength_GROUP_LABEL) records;
          bars = foldl (addToBar byDecade activeKeys) [] filtered;
          ordered = sort_by (\<lambda>a b. localeCompare_le (AggregatedBar.key a) (AggregatedBar.key b))
                      (Map_values bars)
      in if share then map toShare ordered else ordered)"

text \<open>
  The rows of the download: the period, the total, then one column per active category.
  Reading \<^verbatim>\<open>toFixed\<close> from a value that is not there throws.
\<close>

record BeerRow =
  period :: string
  total :: real
  category_columns :: "(string \<times> real) list"

definition beerRow :: "bool \<Rightarrow> string set \<Rightarrow> AggregatedBar \<Rightarrow> js_error + BeerRow" where
  "beerRow asShare activeKeys bar =
     (case for_each (\<lambda>label'.
               let k = keyForLabel label'
               in if k \<notin> activeKeys then Inr []
                  else (case Map_get (AggregatedBar.values bar) k of
                          None \<Rightarrow> Inl TypeError
                        | Some v \<Rightarrow> Inr [(k, toFixed_Number v (if asShare then 4 else 3))]))
             CATEGORY_LABELS of
        Inl e \<Rightarrow> Inl e
      | Inr columns \<Rightarrow>
          Inr \<lparr>BeerRow.period = AggregatedBar.label bar,
               total = toFixed_Number (AggregatedBar.total bar) (if asShare then 4 else 3),
               category_columns = columns\<rparr>)"

definition beerstrength_exportRows ::
  "(string \<Rightarrow> string \<Rightarrow> bool) \<Rightarrow> DataRecord list \<Rightarrow> bool \<Rightarrow> bool \<Rightarrow> string set \<Rightarrow> js_error + BeerRow list" where
  "beerstrength_exportRows localeCompare_le records byDecade asShare activeKeys =
     (let bars = aggregateRecords localeCompare_le records byDecade asShare activeKeys
      in for_each (\<lambda>bar. case beerRow asShare activeKeys bar of Inl e \<Rightarrow> Inl e | Inr row \<Rightarrow> Inr [row]) bars)"

subsection \<open>Well-formed bars\<close>

text \<open>
  A bar as \<^const>\<open>addToBar\<close> keeps it: its values have exactly the category keys and
  its total is the sum of its values; with the flag \<open>nn\<close>, for records without negative
  values, no value is negative either.
\<close>

definition category_keys :: "string list" where
  "category_keys = map keyForLabel CATEGORY_LABELS"

definition bar_ok :: "bool \<Rightarrow> AggregatedBar \<Rightarrow> bool" where
  "bar_ok nn bar =
     (Map_keys (AggregatedBar.values bar) = category_keys
      \<and> AggregatedBar.total bar = sum_list (Map_values (AggregatedBar.values bar))
      \<and> (nn \<longrightarrow> list_all (\<lambda>v. 0 \<le> v) (Map_values (AggregatedBar.values bar))))"

definition non_negative :: "DataRecord list \<Rightarrow> bool" where
  "non_negative records = list_all (\<lambda>r. case DataRecord.value r of None \<Rightarrow> True | Some v \<Rightarrow> 0 \<le> v) records"

text \<open>The bars after the bucket of a record has been created, if it was not there.\<close>

definition withBar :: "bool \<Rightarrow> (string \<times> AggregatedBar) list \<Rightarrow> DataRecord \<Rightarrow> (string \<times> AggregatedBar) list" where
  "withBar d bars r =
     (if \<not> Map_has bars (bucketKey d (DataRecord.year r))
      then Map_set bars (bucketKey d (DataRecord.year r))
             \<lparr>AggregatedBar.key = bucketKey d (DataRecord.year r),
              label = bucketLabel d (DataRecord.year r), total = 0,
              values = fromEntries (map (\<lambda>l. (keyForLabel l, 0)) CATEGORY_LABELS)\<rparr>
      else bars)"

section \<open>Per-capita export\<close>

subsection \<open>\<^verbatim>\<open>views/percapita.ts\<close>: \<^verbatim>\<open>exportRows\<close>\<close>

text \<open>
  The rows of the download, from the series of the last rendering: one row per sample of
  the first series, with the calendar year and month of its date and one column per
  series. A series that is shorter than the first has no point at the index, and its
  column is then \<^verbatim>\<open>null\<close>.
\<close>

record PerCapitaRow =
  year :: int
  month :: int
  series_columns :: "(string \<times> real option) list"

definition percapita_exportRows ::
  "(date \<Rightarrow> int) \<Rightarrow> (date \<Rightarrow> int) \<Rightarrow> SeriesData list \<Rightarrow> PerCapitaRow list" where
  "percapita_exportRows getFullYear getMonth cachedSeries =
     (if length cachedSeries = 0 then []
      else map (\<lambda>index.
             let d = SeriesPoint.date (SeriesData.values (cachedSeries ! 0) ! index)
             in \<lparr>PerCapitaRow.year = getFullYear d, month = getMonth d + 1,
                 series_columns =
                   fromEntries (map (\<lambda>series.
                     (SeriesData.key series,
                      (case at_index (SeriesData.values series) index of
                         None \<Rightarrow> None
                       | Some point \<Rightarrow>
                           (case SeriesPoint.value point of
                              None \<Rightarrow> None
                            | Some v \<Rightarrow> Some (toFixed_Number v 3)))))
                     cachedSeries)\<rparr>)
           [0..<length (SeriesData.values (cachedSeries ! 0))])"

section \<open>The rounding policy as the specification words it\<close>

text \<open>
  \<open>y\<close> is \<open>x\<close> rounded to \<open>d\<close> decimal digits: \<open>y\<close> has no digit after the \<open>d\<close>-th decimal,
  and no number of \<open>d\<close> decimals is nearer to \<open>x\<close>.
\<close>

definition rounded_to :: "nat \<Rightarrow> real \<Rightarrow> real \<Rightarrow> bool" where
  "rounded_to d x y = (of_int \<lfloor>y * 10 ^ d\<rfloor> = y * 10 ^ d \<and> \<bar>y - x\<bar> \<le> 1 / (2 * 10 ^ d))"

section \<open>Sample data\<close>

text \<open>Concrete inputs at which the theorems below are instantiated.\<close>

definition spirits_sample :: "DataRecord list" where
  "spirits_sample =
     [\<lparr>DataRecord.period = ''2001.03'', date = 100, year = 2001, month = 3, value = Some 10,
       units = ''Litres'', groupKey = ''disc-volume-volume-per-head'',
       groupLabel = ''(DISC) Volume & Volume Per Head'', seriesKey = ''spirits'', seriesLabel = ''Spirits''\<rparr>,
      \<lparr>DataRecord.period = ''2001.03'', date = 100, year = 2001, month = 3, value = Some 4,
       units = ''ProofL'', groupKey = ''disc-volume-volume-per-head'',
       groupLabel = ''(DISC) Volume & Volume Per Head'', seriesKey = ''spirits'', seriesLabel = ''Spirits''\<rparr>,
      \<lparr>DataRecord.period = ''2000.12'', date = 50, year = 2000, month = 12, value = Some 7,
       units = ''Litres'', groupKey = ''disc-volume-volume-per-head'',
       groupLabel = ''(DISC) Volume & Volume Per Head'', seriesKey = ''spirits'', seriesLabel = ''Spirits''\<rparr>,
      \<lparr>DataRecord.period = ''2000.12'', date = 50, year = 2000, month = 12, value = Some 0,
       units = ''ProofL'', groupKey = ''disc-volume-volume-per-head'',
       groupLabel = ''(DISC) Volume & Volume Per Head'', seriesKey = ''spirits'', seriesLabel = ''Spirits''\<rparr>]"

definition series_of :: "string \<Rightarrow> (date \<times> real option) list \<Rightarrow> SeriesData" where
  "series_of l tvs =
     \<lparr>SeriesData.key = l, label = l,
      values = map (\<lambda>(t, v). \<lparr>SeriesPoint.date = t, SeriesPoint.value = v\<rparr>) tvs\<rparr>"

definition rising :: SeriesData where
  "rising = series_of ''A'' [(0, Some 1), (1, Some 2), (2, Some 3)]"

definition falling :: SeriesData where
  "falling = series_of ''B'' [(0, Some 3), (1, Some 2), (2, Some 1)]"

definition climbing :: SeriesData where
  "climbing = series_of ''A'' [(0, Some 1), (1, Some 3)]"

definition level :: SeriesData where
  "level = series_of ''B'' [(0, Some 2), (1, Some 2)]"

definition climbing_slow :: SeriesData where
  "climbing_slow = series_of ''A'' [(0, Some 1), (1000, Some 3)]"

definition level_slow :: SeriesData where
  "level_slow = series_of ''B'' [(0, Some 2), (1000, Some 2)]"

definition steep :: SeriesData where
  "steep = series_of ''A'' [(0, Some 0), (3, Some 4)]"

definition low :: SeriesData where
  "low = series_of ''B'' [(0, Some 1), (3, Some 1)]"

text \<open>
  Series whose values are the doubles nearest to \<open>1.1, 1.3\<close> and \<open>1.2, 1.2\<close>, and to
  \<open>5.014, 0.696\<close> and \<open>4.014, 0.6960000000000001\<close>; the last two are one unit in the last
  place apart.
\<close>

definition tenths_up :: SeriesData where
  "tenths_up = series_of ''A''
     [(0, Some (2476979795053773 / 2251799813685248)),
      (1000, Some (5854679515581645 / 4503599627370496))]"

definition tenths_level :: SeriesData where
  "tenths_level = series_of ''B''
     [(0, Some (5404319552844595 / 4503599627370496)),
      (1000, Some (5404319552844595 / 4503599627370496))]"

definition closing :: SeriesData where
  "closing = series_of ''A''
     [(0, Some (5645262132908917 / 1125899906842624)),
      (1000, Some (3134505340649865 / 4503599627370496))]"

definition closing_above :: SeriesData where
  "closing_above = series_of ''B''
     [(0, Some (4519362226066293 / 1125899906842624)),
      (1000, Some (6269010681299731 / 9007199254740992))]"

text \<open>Series that swap the values \<open>2\<^sup>-\<^sup>6\<^sup>0\<^sup>0\<close> and \<open>0\<close>.\<close>

definition tiny_down :: SeriesData where
  "tiny_down = series_of ''A'' [(0, Some (2 powi (- 600))), (1000, Some 0)]"

definition tiny_up :: SeriesData where
  "tiny_up = series_of ''B'' [(0, Some 0), (1000, Some (2 powi (- 600)))]"

text \<open>A per-head series of thirds, and a shorter series with an absent value.\<close>

definition thirds :: SeriesData where
  "thirds = series_of ''A'' [(0, Some (1 / 3)), (1, Some (2 / 3))]"

definition short_series :: SeriesData where
  "short_series = series_of ''B'' [(0, None)]"

text \<open>
  A record of a group, series, year and quarter-end month; its date is a stand-in that
  orders the quarters.
\<close>

definition record_of :: "string \<Rightarrow> string \<Rightarrow> int \<Rightarrow> int \<Rightarrow> real option \<Rightarrow> DataRecord" where
  "record_of g s y m v =
     \<lparr>DataRecord.period = string_of_int y, date = y * 12 + m, year = y, month = m, value = v,
      units = ''Litres'', groupKey = slugify g, groupLabel = g, seriesKey = slugify s, seriesLabel = s\<rparr>"

definition four_quarters :: "string \<Rightarrow> string \<Rightarrow> int \<Rightarrow> DataRecord list" where
  "four_quarters g s y =
     [record_of g s y 3 (Some 10), record_of g s y 6 (Some 20),
      record_of g s y 9 (Some 30), record_of g s y 12 (Some 40)]"

definition codeunit_le :: "string \<Rightarrow> string \<Rightarrow> bool" where
  "codeunit_le a b = ord.lexordp_eq (\<lambda>c d. (of_char c :: nat) < of_char d) a b"

definition strong_beer :: string where
  "strong_beer = ''Beer containing more than 5.00% alcohol''"

definition zero_quarter :: "string \<Rightarrow> string \<Rightarrow> DataRecord list" where
  "zero_quarter g s = [record_of g s 2000 3 (Some 0)]"

definition epoch_text :: "date \<Rightarrow> string" where
  "epoch_text t = ''1970-01-01T00:00:00.000Z''"

definition one_third :: "DataRecord list" where
  "one_third =
     [(record_of spirits_GROUP_LABEL spirits_SERIES_LABEL 1970 3 (Some 1))\<lparr>units := ''Litres'', DataRecord.date := 0\<rparr>,
      (record_of spirits_GROUP_LABEL spirits_SERIES_LABEL 1970 3 (Some 3))\<lparr>units := ''ProofL'', DataRecord.date := 0\<rparr>]"

definition epoch_year :: "date \<Rightarrow> int" where
  "epoch_year t = 1970"

definition epoch_month :: "date \<Rightarrow> int" where
  "epoch_month t = 0"

section \<open>Verification: double-precision rounding\<close>

text \<open>
  Rounding keeps the sign, is monotone, leaves a double as it is, keeps a result between
  two doubles that bound the exact one, is exact on the integers up to \<open>2\<^sup>5\<^sup>3\<close>, and takes
  a real of size at most \<open>2\<^sup>-\<^sup>1\<^sup>0\<^sup>7\<^sup>5\<close> to zero.
\<close>

lemma binade_spec:
  "0 < a \<Longrightarrow> 2 powi binade a \<le> a \<and> a < 2 powi (binade a + 1)"
proof (induction a rule: binade.induct)
  case (1 a)
  show ?case
  proof (cases "2 \<le> a")
    case True
    then have b: "binade a = binade (a / 2) + 1" using 1(3) by (subst binade.simps) simp
    have ih: "2 powi binade (a / 2) \<le> a / 2 \<and> a / 2 < 2 powi (binade (a / 2) + 1)"
      using 1(1) 1(3) True by simp
    have p1: "(2::real) powi (binade (a / 2) + 1) = 2 powi binade (a / 2) * 2"
      by (simp add: power_int_add)
    have p2: "(2::real) powi (binade (a / 2) + 1 + 1) = 2 powi (binade (a / 2) + 1) * 2"
      by (rule power_int_add_1) simp
    show ?thesis unfolding b p2 using ih p1 by linarith
  next
    case False
    show ?thesis
    proof (cases "a < 1")
      case True
      then have b: "binade a = binade (a * 2) - 1" using 1(3) False by (subst binade.simps) simp
      have ih: "2 powi binade (a * 2) \<le> a * 2 \<and> a * 2 < 2 powi (binade (a * 2) + 1)"
        using 1(2) 1(3) False True by simp
      have p1: "(2::real) powi binade (a * 2) = 2 powi (binade (a * 2) - 1) * 2"
        using power_int_add_1 [of "2::real" "binade (a * 2) - 1"] by simp
      have p2: "(2::real) powi (binade (a * 2) + 1) = 2 powi binade (a * 2) * 2"
        by (rule power_int_add_1) simp
      show ?thesis unfolding b using ih p1 p2 by simp
    next
      case c: False
      then have "binade a = 0" using 1(3) False by (subst binade.simps) simp
      then show ?thesis using False c by simp
    qed
  qed
qed

lemma binade_unique:
  assumes "0 < a" and "2 powi e \<le> a" and "a < 2 powi (e + 1)"
  shows "binade a = e"
proof (rule ccontr)
  assume ne: "binade a \<noteq> e"
  note s = binade_spec [OF assms(1)]
  show False
  proof (cases "binade a < e")
    case True
    then have "(2::real) powi (binade a + 1) \<le> 2 powi e"
      by (intro power_int_increasing) simp_all
    with s assms(2) show False by linarith
  next
    case False
    with ne have "e + 1 \<le> binade a" by simp
    then have "(2::real) powi (e + 1) \<le> 2 powi binade a"
      by (intro power_int_increasing) simp_all
    with s assms(3) show False by linarith
  qed
qed

lemma binade_mono:
  assumes "0 < a" and "a \<le> b"
  shows "binade a \<le> binade b"
proof (rule ccontr)
  assume "\<not> binade a \<le> binade b"
  then have "binade b + 1 \<le> binade a" by simp
  then have "(2::real) powi (binade b + 1) \<le> 2 powi binade a"
    by (intro power_int_increasing) simp_all
  moreover have "0 < b" using assms by simp
  ultimately show False
    using binade_spec [OF assms(1)] binade_spec [OF \<open>0 < b\<close>] assms(2) by linarith
qed

lemma quantum_pos: "0 < quantum a"
  by (simp add: quantum_def)

lemma round_even_near: "\<bar>of_int (round_even r) - r\<bar> \<le> 1 / 2"
  unfolding round_even_def Let_def by (auto; linarith)

lemma round_even_of_int: "round_even (of_int n) = n"
  by (simp add: round_even_def)

lemma round_even_mono:
  assumes "r \<le> s"
  shows "round_even r \<le> round_even s"
proof (cases "\<lfloor>r\<rfloor> = \<lfloor>s\<rfloor>")
  case True
  then show ?thesis
    using assms unfolding round_even_def Let_def by (auto; linarith)
next
  case False
  then have "\<lfloor>r\<rfloor> + 1 \<le> \<lfloor>s\<rfloor>" using floor_mono [OF assms] by linarith
  moreover have "round_even r \<le> \<lfloor>r\<rfloor> + 1" unfolding round_even_def Let_def by auto
  moreover have "\<lfloor>s\<rfloor> \<le> round_even s" unfolding round_even_def Let_def by auto
  ultimately show ?thesis by linarith
qed

lemma round_even_nonneg: "0 \<le> r \<Longrightarrow> 0 \<le> round_even r"
  using round_even_mono [of 0 r] round_even_of_int [of 0] by simp

lemma round_size_nonneg: "0 \<le> a \<Longrightarrow> 0 \<le> round_size a"
  unfolding round_size_def using quantum_pos [of a] round_even_nonneg [of "a / quantum a"]
  by (simp add: less_imp_le)

text \<open>A rounding has the sign of the exact result, or is zero.\<close>

lemma round_double_sign:
  "(round_double x = Fin u \<longrightarrow> (u < 0 \<longrightarrow> x < 0) \<and> (0 < u \<longrightarrow> 0 < x))
   \<and> (round_double x = MinusInfinity \<longrightarrow> x < 0)
   \<and> (round_double x = PlusInfinity \<longrightarrow> 0 < x)
   \<and> round_double x \<noteq> NotANumber"
proof -
  have n: "0 \<le> round_size \<bar>x\<bar>" by (rule round_size_nonneg) simp
  show ?thesis
  proof (cases "x = 0")
    case True
    then show ?thesis by (auto simp: round_double_def)
  next
    case False
    then show ?thesis
      using n by (auto simp: round_double_def sgn_if mult_less_0_iff zero_less_mult_iff split: if_splits)
  qed
qed


lemma quantum_expo: "quantum a = 2 powi (expo a - 52)"
  by (simp add: quantum_def expo_def)

lemma expo_mono: "0 < a \<Longrightarrow> a \<le> b \<Longrightarrow> expo a \<le> expo b"
  using binade_mono [of a b] by (simp add: expo_def)

lemma below_next_binade: "0 < a \<Longrightarrow> a < 2 powi (expo a + 1)"
proof -
  assume a: "0 < a"
  have "(2::real) powi (binade a + 1) \<le> 2 powi (expo a + 1)"
    by (intro power_int_increasing) (simp_all add: expo_def)
  then show ?thesis using binade_spec [OF a] by linarith
qed

text \<open>Multiples of the quantum of \<open>a\<close> bound the rounded size of \<open>a\<close> as they bound \<open>a\<close>.\<close>

lemma round_size_le_grid:
  assumes "a \<le> of_int m * quantum a"
  shows "round_size a \<le> of_int m * quantum a"
proof -
  have "a / quantum a \<le> of_int m"
    using assms quantum_pos [of a] by (simp add: field_simps)
  then have "round_even (a / quantum a) \<le> m"
    using round_even_mono [of "a / quantum a" "of_int m"] by (simp add: round_even_of_int)
  then have "(of_int (round_even (a / quantum a)) :: real) \<le> of_int m" by simp
  then show ?thesis
    unfolding round_size_def using quantum_pos [of a] by (simp add: mult_right_mono less_imp_le)
qed

lemma round_size_ge_grid:
  assumes "of_int m * quantum a \<le> a"
  shows "of_int m * quantum a \<le> round_size a"
proof -
  have "of_int m \<le> a / quantum a"
    using assms quantum_pos [of a] by (simp add: field_simps)
  then have "m \<le> round_even (a / quantum a)"
    using round_even_mono [of "of_int m" "a / quantum a"] by (simp add: round_even_of_int)
  then have "(of_int m :: real) \<le> of_int (round_even (a / quantum a))" by simp
  then show ?thesis
    unfolding round_size_def using quantum_pos [of a] by (simp add: mult_right_mono less_imp_le)
qed

lemma round_size_exact:
  assumes "a = of_int m * quantum a"
  shows "round_size a = a"
  using round_size_le_grid [of a m] round_size_ge_grid [of m a] assms by simp

text \<open>A power of two from the binade of \<open>a\<close> upwards is a multiple of the quantum of \<open>a\<close>.\<close>

lemma power_on_grid:
  assumes "expo a \<le> k"
  shows "(2::real) powi k = of_int (2 ^ nat (k - expo a + 52)) * quantum a"
proof -
  have "(2::real) powi k = 2 powi (k - expo a + 52) * 2 powi (expo a - 52)"
    by (simp flip: power_int_add)
  moreover have "(2::real) powi (k - expo a + 52) = of_int (2 ^ nat (k - expo a + 52))"
    using assms by (simp add: power_int_def)
  ultimately show ?thesis by (simp add: quantum_expo)
qed

lemma round_size_le_power:
  assumes "expo a \<le> k" and "a \<le> 2 powi k"
  shows "round_size a \<le> 2 powi k"
proof -
  note g = power_on_grid [OF assms(1)]
  have "a \<le> of_int (2 ^ nat (k - expo a + 52)) * quantum a" using assms(2) unfolding g .
  then have "round_size a \<le> of_int (2 ^ nat (k - expo a + 52)) * quantum a"
    by (rule round_size_le_grid)
  then show ?thesis unfolding g .
qed

lemma round_size_ge_power:
  assumes "expo a \<le> k" and "2 powi k \<le> a"
  shows "2 powi k \<le> round_size a"
proof -
  note g = power_on_grid [OF assms(1)]
  have "of_int (2 ^ nat (k - expo a + 52)) * quantum a \<le> a" using assms(2) unfolding g .
  then have "of_int (2 ^ nat (k - expo a + 52)) * quantum a \<le> round_size a"
    by (rule round_size_ge_grid)
  then show ?thesis unfolding g .
qed

lemma round_size_mono:
  assumes "0 < a" and "a \<le> b"
  shows "round_size a \<le> round_size b"
proof (cases "expo a = expo b")
  case True
  then have q: "quantum a = quantum b" by (simp add: quantum_expo)
  have "a / quantum b \<le> b / quantum b"
    using assms(2) quantum_pos [of b] by (simp add: divide_right_mono less_imp_le)
  then have "(of_int (round_even (a / quantum b)) :: real) \<le> of_int (round_even (b / quantum b))"
    using round_even_mono by simp
  then show ?thesis
    unfolding round_size_def q using quantum_pos [of b] by (simp add: mult_right_mono less_imp_le)
next
  case False
  have b: "0 < b" using assms by simp
  have lt: "expo a < expo b" using expo_mono [OF assms] False by simp
  then have nb: "expo b = binade b" by (auto simp: expo_def)
  have "a < 2 powi (expo a + 1)" using assms(1) by (rule below_next_binade)
  moreover have "(2::real) powi (expo a + 1) \<le> 2 powi expo b"
    using lt by (intro power_int_increasing) simp_all
  ultimately have "a \<le> 2 powi expo b" by linarith
  then have "round_size a \<le> 2 powi expo b"
    using lt by (intro round_size_le_power) simp_all
  moreover have "2 powi expo b \<le> round_size b"
    using binade_spec [OF b] nb by (intro round_size_ge_power) simp_all
  ultimately show ?thesis by linarith
qed

lemma round_size_zero: "round_size 0 = 0"
  by (simp add: round_size_def round_even_of_int [of 0, simplified])

lemma binade_nonpos: "a \<le> 0 \<Longrightarrow> binade a = 0"
  by (subst binade.simps) simp

lemma binade_power: "binade (2 powi k) = k"
  by (rule binade_unique) (simp_all add: power_int_strict_increasing)

text \<open>The rounded size of \<open>a\<close> is itself a double: rounding it again changes nothing.\<close>

lemma round_size_idem:
  assumes "0 < a"
  shows "round_size (round_size a) = round_size a"
proof -
  define y where "y = round_size a"
  define n where "n = round_even (a / quantum a)"
  have y: "y = of_int n * quantum a" by (simp add: y_def n_def round_size_def)
  have y0: "0 \<le> y" unfolding y_def using assms by (intro round_size_nonneg) simp
  have ytop: "y \<le> 2 powi (expo a + 1)"
    unfolding y_def using below_next_binade [OF assms] by (intro round_size_le_power) simp_all
  show ?thesis
  proof (cases "y = 0")
    case True
    then show ?thesis unfolding y_def [symmetric] by (simp add: round_size_zero)
  next
    case False
    then have yp: "0 < y" using y0 by simp
    consider (sub) "binade a < - 1022" | (edge) "- 1022 \<le> binade a" "y = 2 powi (expo a + 1)"
      | (mid) "- 1022 \<le> binade a" "y < 2 powi (expo a + 1)"
      using ytop by linarith
    then have "\<exists>m. y = of_int m * quantum y"
    proof cases
      case sub
      then have e: "expo a = - 1022" by (simp add: expo_def)
      have "a < 2 powi (binade a + 1)" using binade_spec [OF assms] by simp
      moreover have "(2::real) powi (binade a + 1) \<le> 2 powi (- 1022)"
        using sub by (intro power_int_increasing) simp_all
      ultimately have "a \<le> 2 powi (- 1022)" by linarith
      then have "y \<le> 2 powi (- 1022)"
        unfolding y_def using e by (intro round_size_le_power) simp_all
      then have "binade y \<le> binade (2 powi (- 1022))" using yp by (intro binade_mono)
      then have "binade y \<le> - 1022" by (simp only: binade_power)
      then have "expo y = - 1022" by (simp add: expo_def)
      then have "quantum y = quantum a" using e by (simp add: quantum_expo)
      then show ?thesis using y by auto
    next
      case edge
      then have "expo y = expo a + 1" by (simp add: binade_power expo_def)
      then have "y = of_int (2 ^ 52) * quantum y"
        using edge(2) power_on_grid [of y "expo a + 1"] by simp
      then show ?thesis by blast
    next
      case mid
      then have e: "expo a = binade a" by (simp add: expo_def)
      have "2 powi expo a \<le> y"
        unfolding y_def using binade_spec [OF assms] e by (intro round_size_ge_power) simp_all
      then have "binade y = expo a" using yp mid(2) by (intro binade_unique)
      then have "expo y = expo a" using mid(1) e by (simp add: expo_def)
      then have "quantum y = quantum a" by (simp add: quantum_expo)
      then show ?thesis using y by auto
    qed
    then obtain m where "y = of_int m * quantum y" by blast
    then have "round_size y = y" by (rule round_size_exact)
    then show ?thesis by (simp add: y_def)
  qed
qed


lemma round_double_pos:
  "0 < x \<Longrightarrow> round_double x = (if 1024 \<le> binade (round_size x) then PlusInfinity else Fin (round_size x))"
  by (simp add: round_double_def)

lemma round_double_neg: "round_double (- x) = dneg (round_double x)"
  by (simp add: round_double_def sgn_if)

lemma round_double_zero: "round_double 0 = Fin 0"
  by (simp add: round_double_def)

lemma round_double_never_nan: "round_double x \<noteq> NotANumber"
  using round_double_sign by blast

lemma is_double_pos:
  assumes "0 < u"
  shows "is_double u \<longleftrightarrow> round_size u = u \<and> binade u < 1024"
  unfolding is_double_def round_double_pos [OF assms] by auto

lemma is_double_neg: "is_double (- u) = is_double u"
  unfolding is_double_def round_double_neg by (cases "round_double u") auto

lemma is_double_zero: "is_double 0"
  by (simp add: is_double_def round_double_zero)

lemma is_double_abs: "is_double \<bar>u\<bar> = is_double u"
  by (cases "u < 0") (simp_all add: is_double_neg abs_if)

lemma round_double_is_double:
  assumes "round_double x = Fin u"
  shows "is_double u"
proof -
  have pos: "is_double v" if "0 < y" "round_double y = Fin v" for y v
  proof -
    have v: "v = round_size y" and b: "binade (round_size y) < 1024"
      using that by (auto simp: round_double_pos split: if_splits)
    show ?thesis
    proof (cases "v = 0")
      case True
      then show ?thesis by (simp add: is_double_zero)
    next
      case False
      then have "0 < v" using v round_size_nonneg [of y] that(1) by simp
      then show ?thesis
        using v b round_size_idem [OF that(1)] by (simp add: is_double_pos)
    qed
  qed
  consider "x = 0" | "0 < x" | "x < 0" by linarith
  then show ?thesis
  proof cases
    case 1
    then show ?thesis using assms by (auto simp: round_double_zero is_double_zero)
  next
    case 2
    then show ?thesis using assms by (rule pos)
  next
    case 3
    have "round_double (- x) = Fin (- u)"
      using assms round_double_neg [of x] by simp
    then have "is_double (- u)" using 3 by (intro pos [of "- x"]) simp_all
    then show ?thesis by (simp add: is_double_neg)
  qed
qed

text \<open>Rounding keeps a real between the doubles that enclose it.\<close>

lemma round_double_between:
  assumes "lo \<le> x" and "x \<le> hi" and "is_double lo" and "is_double hi"
  shows "\<exists>u. round_double x = Fin u \<and> lo \<le> u \<and> u \<le> hi"
proof -
  have pos: "\<exists>u. round_double y = Fin u \<and> l \<le> u \<and> u \<le> h"
    if "0 < y" "l \<le> y" "y \<le> h" "is_double l" "is_double h" for y l h
  proof -
    have h: "0 < h" using that by simp
    then have hs: "round_size h = h" and hb: "binade h < 1024"
      using that(5) by (simp_all add: is_double_pos)
    have le: "round_size y \<le> h" using round_size_mono [OF that(1,3)] hs by simp
    have "binade (round_size y) < 1024"
    proof (cases "0 < round_size y")
      case True
      then show ?thesis using binade_mono [OF True le] hb by simp
    next
      case False
      then show ?thesis by (simp add: binade_nonpos)
    qed
    then have r: "round_double y = Fin (round_size y)"
      using that(1) by (simp add: round_double_pos)
    have "l \<le> round_size y"
    proof (cases "0 < l")
      case True
      then have "round_size l = l" using that(4) by (simp add: is_double_pos)
      then show ?thesis using round_size_mono [OF True that(2)] by simp
    next
      case False
      then show ?thesis using round_size_nonneg [of y] that(1) by simp
    qed
    with r le show ?thesis by simp
  qed
  consider "x = 0" | "0 < x" | "x < 0" by linarith
  then show ?thesis
  proof cases
    case 1
    then show ?thesis using assms by (simp add: round_double_zero)
  next
    case 2
    then show ?thesis using assms by (intro pos)
  next
    case 3
    have "\<exists>u. round_double (- x) = Fin u \<and> - hi \<le> u \<and> u \<le> - lo"
      using 3 assms by (intro pos) (simp_all add: is_double_neg)
    then obtain u where "round_double (- x) = Fin u" "- hi \<le> u" "u \<le> - lo" by blast
    then have "round_double x = Fin (- u) \<and> lo \<le> - u \<and> - u \<le> hi"
      using round_double_neg [of x] by (cases "round_double x") auto
    then show ?thesis by blast
  qed
qed

text \<open>Whole numbers up to \<open>2\<^sup>5\<^sup>3\<close> in size are doubles.\<close>

lemma is_double_int:
  assumes "\<bar>n\<bar> \<le> 2 ^ 53"
  shows "is_double (of_int n)"
proof -
  have pos: "is_double (of_int m)" if "0 < m" "m \<le> 2 ^ 53" for m :: int
  proof -
    define a :: real where "a = of_int m"
    have a: "1 \<le> a" "a \<le> 2 ^ 53" using that by (simp_all add: a_def flip: of_int_le_iff)
    have a0: "0 < a" using a by simp
    have b0: "0 \<le> binade a"
      using binade_mono [of 1 a] a binade_power [of 0] by simp
    have b53: "binade a \<le> 53"
      using binade_mono [OF a0 a(2)] binade_power [of 53] by simp
    have e: "expo a = binade a" using b0 by (simp add: expo_def)
    have "\<exists>k. a = of_int k * quantum a"
    proof (cases "binade a = 53")
      case True
      then have "2 powi 53 \<le> a" using binade_spec [OF a0] by simp
      then have "a = 2 powi 53" using a(2) by simp
      then have "a = of_int (2 ^ 52) * quantum a"
        using True e by (simp add: quantum_expo)
      then show ?thesis by blast
    next
      case False
      then have le: "binade a \<le> 52" using b53 by simp
      have "(2::real) powi (52 - binade a) * 2 powi (binade a - 52) = 1"
        by (simp flip: power_int_add)
      moreover have "(2::real) powi (52 - binade a) = of_int (2 ^ nat (52 - binade a))"
        using le by (simp add: power_int_def)
      ultimately have "(1::real) = of_int (2 ^ nat (52 - binade a)) * quantum a"
        using e by (simp add: quantum_expo)
      then have "a = of_int (m * 2 ^ nat (52 - binade a)) * quantum a"
        by (simp add: a_def algebra_simps)
      then show ?thesis by blast
    qed
    then obtain k where "a = of_int k * quantum a" by blast
    then have "round_size a = a" by (rule round_size_exact)
    then show ?thesis using a0 b53 by (simp add: is_double_pos a_def [symmetric])
  qed
  consider "n = 0" | "0 < n" | "n < 0" by linarith
  then show ?thesis
  proof cases
    case 1
    then show ?thesis by (simp add: is_double_zero)
  next
    case 2
    then show ?thesis using assms by (intro pos) simp_all
  next
    case 3
    then have "is_double (of_int (- n))" using assms by (intro pos) simp_all
    then show ?thesis by (simp add: is_double_neg)
  qed
qed

text \<open>A real of size at most \<open>2\<^sup>-\<^sup>1\<^sup>0\<^sup>7\<^sup>5\<close>, half the least double, rounds to zero.\<close>

lemma round_double_underflow:
  assumes "\<bar>x\<bar> \<le> 2 powi (- 1075)"
  shows "round_double x = Fin 0"
proof (cases "x = 0")
  case True
  then show ?thesis by (simp add: round_double_zero)
next
  case False
  define a where "a = \<bar>x\<bar>"
  have a: "0 < a" "a \<le> 2 powi (- 1075)" using False assms by (simp_all add: a_def)
  have "binade a \<le> binade (2 powi (- 1075))" using a by (intro binade_mono)
  then have "binade a \<le> - 1075" by (simp only: binade_power)
  then have q: "quantum a = 2 powi (- 1074)" by (simp add: quantum_def)
  have "a / quantum a \<le> 2 powi (- 1075) / 2 powi (- 1074)"
    unfolding q using a(2) by (intro divide_right_mono) simp_all
  also have "\<dots> = 1 / 2" by (simp add: power_int_minus field_simps)
  finally have "a / quantum a \<le> 1 / 2" .
  moreover have "0 \<le> a / quantum a" using a(1) quantum_pos [of a] by simp
  ultimately have "round_even (a / quantum a) = 0"
    using round_even_mono [of "a / quantum a" "1 / 2"] round_even_nonneg [of "a / quantum a"]
    by (simp add: round_even_def [of "1 / 2"])
  then have "round_size a = 0" by (simp add: round_size_def)
  then show ?thesis using False by (simp add: round_double_def a_def binade_nonpos)
qed

section \<open>Verification: moving-average smoothing\<close>














lemma smoothValues_dates: "map SeriesPoint.date (smoothValues ps w) = map SeriesPoint.date ps"
  by (rule nth_equalityI) (auto simp: smoothValues_def Let_def)

lemma smoothSeries_length: "length (smoothSeries vs w) = length vs"
  by (simp add: smoothSeries_def)



text \<open>
  Claim C10. For every input and every window size, smoothing returns a series of the
  same length; \<^const>\<open>smoothValues\<close> keeps the date of the point at every index.
\<close>

theorem smoothing_keeps_length_and_dates:
  "length (smoothValues ps w) = length ps
   \<and> map SeriesPoint.date (smoothValues ps w) = map SeriesPoint.date ps
   \<and> length (smoothSeries vs w) = length vs"
  using smoothValues_dates [of ps w] smoothSeries_length [of vs w] map_eq_imp_length_eq
  by blast

section \<open>Verification: slugs\<close>

lemma hyphen_not_alnum: "\<not> is_alnum CHR ''-''"
  by (simp add: is_alnum_def)

lemma is_hyphen_not_alnum: "is_hyphen c \<Longrightarrow> \<not> is_alnum c"
  by (simp add: is_hyphen_def hyphen_not_alnum)

lemma toLowerCase_char_alnum: "is_alnum c \<Longrightarrow> toLowerCase_char c = c"
  by (auto simp: is_alnum_def toLowerCase_char_def Let_def)

lemma toLowerCase_char_hyphen: "toLowerCase_char CHR ''-'' = CHR ''-''"
  by (simp add: toLowerCase_char_def)

lemma replace_runs_chars: "slug_chars (replace_non_alnum_runs s)"
  by (induction s rule: replace_non_alnum_runs.induct) (auto simp: slug_chars_def is_hyphen_def)

lemma dropWhile_non_alnum_head:
  "dropWhile (\<lambda>d. \<not> is_alnum d) cs = [] \<or> is_alnum (hd (dropWhile (\<lambda>d. \<not> is_alnum d) cs))"
  using hd_dropWhile [of "\<lambda>d. \<not> is_alnum d" cs] by blast

lemma replace_runs_head:
  "s \<noteq> [] \<Longrightarrow> is_alnum (hd s) \<Longrightarrow>
     replace_non_alnum_runs s \<noteq> [] \<and> hd (replace_non_alnum_runs s) = hd s"
  by (cases s) auto

lemma no_double_hyphen_Cons:
  "no_double_hyphen t \<Longrightarrow> (t = [] \<or> \<not> is_hyphen (hd t) \<or> \<not> is_hyphen c) \<Longrightarrow> no_double_hyphen (c # t)"
  by (cases t) auto

lemma replace_runs_nil: "replace_non_alnum_runs s = [] \<longleftrightarrow> s = []"
  by (cases s) auto

lemma replace_runs_no_double: "no_double_hyphen (replace_non_alnum_runs s)"
proof (induction s rule: replace_non_alnum_runs.induct)
  case 1
  show ?case by simp
next
  case (2 c cs)
  show ?case
  proof (cases "is_alnum c")
    case True
    with 2 show ?thesis
      by (auto intro!: no_double_hyphen_Cons simp: is_hyphen_not_alnum)
  next
    case False
    let ?r = "dropWhile (\<lambda>d. \<not> is_alnum d) cs"
    have "replace_non_alnum_runs ?r = [] \<or> \<not> is_hyphen (hd (replace_non_alnum_runs ?r))"
      using dropWhile_non_alnum_head [of cs] replace_runs_head [of ?r] is_hyphen_not_alnum
      by (metis replace_runs_nil)
    with 2 False show ?thesis
      by (auto intro!: no_double_hyphen_Cons)
  qed
qed

lemma replace_runs_spec: "replace_non_alnum_runs s = collapse_to_hyphen s"
proof (induction s rule: collapse_to_hyphen.induct)
  case 1
  show ?case by simp
next
  case (2 c)
  show ?case by simp
next
  case (3 c d cs)
  then show ?case by auto
qed

lemma strip_trailing_rev:
  "strip_trailing_hyphens s = rev (dropWhile (\<lambda>c. c = CHR ''-'') (rev s))"
proof (induction s)
  case Nil
  show ?case by simp
next
  case (Cons c cs)
  show ?case
  proof (cases "\<forall>x \<in> set cs. x = CHR ''-''")
    case True
    then have "dropWhile (\<lambda>c. c = CHR ''-'') (rev cs) = []" by simp
    with Cons True show ?thesis
      by (simp add: dropWhile_append is_hyphen_def Let_def)
  next
    case False
    then have "dropWhile (\<lambda>c. c = CHR ''-'') (rev cs) \<noteq> []" by auto
    with Cons False show ?thesis
      by (auto simp: dropWhile_append is_hyphen_def Let_def)
  qed
qed

lemma strip_edge_trim: "strip_edge_hyphens s = trim_hyphens s"
proof -
  have "is_hyphen = (\<lambda>c. c = CHR ''-'')" by (auto simp: is_hyphen_def)
  then show ?thesis by (simp add: strip_edge_hyphens_def trim_hyphens_def strip_trailing_rev)
qed


lemma no_double_hyphen_tl: "no_double_hyphen (c # cs) \<Longrightarrow> no_double_hyphen cs"
  by (cases cs) auto

lemma no_double_dropWhile: "no_double_hyphen s \<Longrightarrow> no_double_hyphen (dropWhile P s)"
  by (induction s) (auto dest: no_double_hyphen_tl)

lemma strip_trailing_head:
  "strip_trailing_hyphens s \<noteq> [] \<Longrightarrow> hd (strip_trailing_hyphens s) = hd s"
  by (cases s) (auto simp: Let_def split: if_splits)

lemma no_double_strip_trailing:
  "no_double_hyphen s \<Longrightarrow> no_double_hyphen (strip_trailing_hyphens s)"
proof (induction s)
  case Nil
  show ?case by simp
next
  case (Cons c cs)
  have tl: "no_double_hyphen (strip_trailing_hyphens cs)"
    using Cons no_double_hyphen_tl by blast
  show ?case
  proof (cases "strip_trailing_hyphens cs = []")
    case True
    then show ?thesis by (simp add: Let_def)
  next
    case False
    then have "cs \<noteq> []" by auto
    then have "\<not> (is_hyphen c \<and> is_hyphen (hd cs))"
      using Cons.prems by (cases cs) auto
    then have "\<not> is_hyphen (hd (strip_trailing_hyphens cs)) \<or> \<not> is_hyphen c"
      using strip_trailing_head [OF False] by auto
    with tl False show ?thesis
      by (auto simp: Let_def intro!: no_double_hyphen_Cons)
  qed
qed

lemma set_strip_trailing: "set (strip_trailing_hyphens s) \<subseteq> set s"
  by (induction s) (auto simp: Let_def)

lemma slug_chars_strip_edge: "slug_chars s \<Longrightarrow> slug_chars (strip_edge_hyphens s)"
  unfolding slug_chars_def strip_edge_hyphens_def
  using set_strip_trailing set_dropWhileD by fast

lemma collapse_no_double: "no_double_hyphen s \<Longrightarrow> collapse_hyphen_runs s = s"
  by (induction s rule: collapse_hyphen_runs.induct) auto

lemma strip_trailing_fixed: "strip_trailing_hyphens (strip_trailing_hyphens s) = strip_trailing_hyphens s"
  by (induction s) (auto simp: Let_def)

lemma strip_edge_no_leading:
  "strip_edge_hyphens s = [] \<or> \<not> is_hyphen (hd (strip_edge_hyphens s))"
proof (cases "strip_edge_hyphens s = []")
  case True
  then show ?thesis by simp
next
  case False
  then have "hd (strip_edge_hyphens s) = hd (dropWhile is_hyphen s)"
    unfolding strip_edge_hyphens_def by (rule strip_trailing_head)
  moreover have "dropWhile is_hyphen s \<noteq> []"
  proof
    assume "dropWhile is_hyphen s = []"
    then have "strip_edge_hyphens s = strip_trailing_hyphens []"
      unfolding strip_edge_hyphens_def by (rule arg_cong)
    then have "strip_edge_hyphens s = []" by simp
    with False show False by simp
  qed
  ultimately show ?thesis
    using hd_dropWhile [of is_hyphen s] by simp
qed

lemma dropWhile_no_leading: "s = [] \<or> \<not> P (hd s) \<Longrightarrow> dropWhile P s = s"
  by (cases s) auto

lemma strip_edge_fixed: "strip_edge_hyphens (strip_edge_hyphens s) = strip_edge_hyphens s"
proof -
  have "dropWhile is_hyphen (strip_edge_hyphens s) = strip_edge_hyphens s"
    using strip_edge_no_leading [of s] by (rule dropWhile_no_leading)
  then have "strip_edge_hyphens (strip_edge_hyphens s) = strip_trailing_hyphens (strip_edge_hyphens s)"
    by (simp add: strip_edge_hyphens_def)
  also have "\<dots> = strip_edge_hyphens s"
    by (simp add: strip_edge_hyphens_def strip_trailing_fixed)
  finally show ?thesis .
qed

lemma toLowerCase_slug_chars: "slug_chars s \<Longrightarrow> toLowerCase s = s"
  unfolding slug_chars_def toLowerCase_def
  by (induction s) (auto simp: toLowerCase_char_alnum toLowerCase_char_hyphen is_hyphen_def)

lemma replace_runs_fixed:
  "slug_chars s \<Longrightarrow> no_double_hyphen s \<Longrightarrow> replace_non_alnum_runs s = s"
proof (induction s rule: replace_non_alnum_runs.induct)
  case 1
  show ?case by simp
next
  case (2 c cs)
  have tl_chars: "slug_chars cs" using "2.prems"(1) by (simp add: slug_chars_def)
  have tl_nd: "no_double_hyphen cs" using "2.prems"(2) by (rule no_double_hyphen_tl)
  show ?case
  proof (cases "is_alnum c")
    case True
    with 2 tl_chars tl_nd show ?thesis by simp
  next
    case False
    then have c: "is_hyphen c" using "2.prems"(1) by (simp add: slug_chars_def)
    have "cs = [] \<or> is_alnum (hd cs)"
    proof (cases cs)
      case Nil
      then show ?thesis by simp
    next
      case (Cons d ds)
      then have "\<not> is_hyphen d" using "2.prems"(2) c by simp
      moreover have "is_alnum d \<or> is_hyphen d" using tl_chars Cons by (simp add: slug_chars_def)
      ultimately show ?thesis using Cons by simp
    qed
    then have "dropWhile (\<lambda>d. \<not> is_alnum d) cs = cs"
      by (cases cs) auto
    with 2 False tl_chars tl_nd c show ?thesis by (simp add: is_hyphen_def)
  qed
qed

lemma slugify_form:
  "slugify l = strip_edge_hyphens (replace_non_alnum_runs (toLowerCase l))"
  unfolding slugify_def
  by (intro collapse_no_double) (simp add: strip_edge_hyphens_def no_double_strip_trailing no_double_dropWhile replace_runs_no_double)

lemma slugify_spec: "slugify l = spec_slug l"
  by (simp add: slugify_form spec_slug_def strip_edge_trim replace_runs_spec)

lemma slugify_chars: "slug_chars (slugify l)"
  by (simp add: slugify_form slug_chars_strip_edge replace_runs_chars)

lemma slugify_no_double: "no_double_hyphen (slugify l)"
  by (simp add: slugify_form strip_edge_hyphens_def no_double_strip_trailing no_double_dropWhile replace_runs_no_double)

lemma slugify_idem: "slugify (slugify l) = slugify l"
proof -
  have "slugify (slugify l) = strip_edge_hyphens (replace_non_alnum_runs (toLowerCase (slugify l)))"
    by (rule slugify_form)
  also have "\<dots> = strip_edge_hyphens (slugify l)"
    by (simp add: toLowerCase_slug_chars replace_runs_fixed slugify_chars slugify_no_double)
  also have "\<dots> = slugify l"
    by (simp add: slugify_form strip_edge_fixed)
  finally show ?thesis .
qed

text \<open>
  Claim C8. For every label, \<^const>\<open>slugify\<close> returns the label lowercased, with every
  maximal run of characters outside \<^verbatim>\<open>[a-z0-9]\<close> collapsed to one hyphen and the hyphens
  at both ends removed; and \<^const>\<open>slugify\<close> is idempotent.
\<close>

theorem slugify_refines_spec_and_idempotent:
  "slugify l = spec_slug l \<and> slugify (slugify l) = slugify l"
  using slugify_spec [of l] slugify_idem [of l] by (rule conjI)

section \<open>Verification: spirits unit check\<close>

lemma setRatio_fields:
  "SpiritsPoint.litres (setRatio q) = SpiritsPoint.litres q
   \<and> SpiritsPoint.proof (setRatio q) = SpiritsPoint.proof q
   \<and> SpiritsPoint.date (setRatio q) = SpiritsPoint.date q
   \<and> SpiritsPoint.period (setRatio q) = SpiritsPoint.period q"
  by (simp add: setRatio_def split: option.splits)

lemma setRatio_ratio:
  "SpiritsPoint.ratio (setRatio q) = spec_ratio (SpiritsPoint.litres q) (SpiritsPoint.proof q)"
  by (simp add: setRatio_def spec_ratio_def split: option.splits)

lemma preparePoints_setRatio:
  "p \<in> set (preparePoints records) \<Longrightarrow> \<exists>q. p = setRatio q"
  by (auto simp: preparePoints_def Let_def)

lemma preparePoints_sample: "preparePoints spirits_sample =
   [\<lparr>SpiritsPoint.date = 50, period = ''2000.12'', litres = Some 7, proof = Some 0, ratio = None\<rparr>,
    \<lparr>SpiritsPoint.date = 100, period = ''2001.03'', litres = Some 10, proof = Some 4, ratio = Some (5/2)\<rparr>]"
  by code_simp

text \<open>
  Claim C7. For every point that \<^const>\<open>preparePoints\<close> returns, the litres/proof ratio
  is absent when the litres value is absent, the proof value is absent or the proof value
  is zero, and is litres divided by proof otherwise. \<^const>\<open>preparePoints\<close> is a total
  function: no input makes it fail.
\<close>

theorem spirits_ratio_absent_or_quotient:
  "\<forall>p \<in> set (preparePoints records).
     SpiritsPoint.ratio p = spec_ratio (SpiritsPoint.litres p) (SpiritsPoint.proof p)"
  using preparePoints_setRatio setRatio_fields setRatio_ratio by metis

theorem spirits_ratio_absent_or_quotient_witness:
  "map SpiritsPoint.ratio (preparePoints spirits_sample) = [None, Some (5 / 2)]
   \<and> map (\<lambda>p. spec_ratio (SpiritsPoint.litres p) (SpiritsPoint.proof p)) (preparePoints spirits_sample)
       = [None, Some (5 / 2)]"
  using spirits_ratio_absent_or_quotient [of spirits_sample] unfolding preparePoints_sample
  by (simp add: spec_ratio_def)
section \<open>Verification: crossover detection\<close>

subsection \<open>The rounds of the loop\<close>

lemma for_each_Inr:
  "(\<forall>x \<in> set xs. body x = Inr (g x)) \<Longrightarrow> for_each body xs = Inr (concat (map g xs))"
  by (induction xs) auto

lemma crossingsAt_total:
  assumes "k < length (SeriesData.values b)"
  shows "\<exists>ys. crossingsAt a b k = Inr ys"
proof -
  have "k - 1 < length (SeriesData.values b)" using assms by simp
  with assms show ?thesis
    by (simp add: crossingsAt_def at_index_def Let_def split: option.splits)
qed

lemma crossingsAt_present:
  assumes "k < length (SeriesData.values b)"
    and "SeriesPoint.value (SeriesData.values a ! (k - 1)) = Some a_prev"
    and "SeriesPoint.value (SeriesData.values a ! k) = Some a_curr"
    and "SeriesPoint.value (SeriesData.values b ! (k - 1)) = Some b_prev"
    and "SeriesPoint.value (SeriesData.values b ! k) = Some b_curr"
  shows "crossingsAt a b k =
           (if dsub (Fin a_prev) (Fin b_prev) = Fin 0
            then Inr [\<lparr>CrossoverPoint.date = TimeValue (SeriesPoint.date (SeriesData.values a ! (k - 1))),
                       labelA = SeriesData.label a, labelB = SeriesData.label b, value = Fin a_prev\<rparr>]
            else if dlt0 (dmul (dsub (Fin a_prev) (Fin b_prev)) (dsub (Fin a_curr) (Fin b_curr)))
            then Inr [\<lparr>CrossoverPoint.date =
                         new_Date (interpolate (getTime (SeriesPoint.date (SeriesData.values a ! (k - 1))))
                                     (getTime (SeriesPoint.date (SeriesData.values a ! k)))
                                     (weight_of_diffs (dsub (Fin a_prev) (Fin b_prev))
                                                      (dsub (Fin a_curr) (Fin b_curr)))),
                       labelA = SeriesData.label a, labelB = SeriesData.label b,
                       value = interpolate (Fin a_prev) (Fin a_curr)
                                 (weight_of_diffs (dsub (Fin a_prev) (Fin b_prev))
                                                  (dsub (Fin a_curr) (Fin b_curr)))\<rparr>]
            else Inr [])"
proof -
  have "k - 1 < length (SeriesData.values b)" using assms(1) by simp
  with assms show ?thesis
    by (simp add: crossingsAt_def at_index_def Let_def interpolate_def weight_of_diffs_def)
qed

lemma dsub_Fin: "dsub (Fin a) (Fin b) = round_double (a - b)"
  by (simp add: dsub_def)

lemma dlt0_round_double: "dlt0 (round_double z) \<Longrightarrow> z < 0"
  using round_double_sign [of z] by (cases "round_double z") auto

lemma dgt0_round_double: "dlt0 (dneg (round_double z)) \<Longrightarrow> 0 < z"
  using round_double_sign [of z] by (cases "round_double z") auto

lemma dmul_Fin_negative:
  "dlt0 (round_double (a * b)) \<longleftrightarrow> ((a < 0 \<and> 0 < b) \<or> (0 < a \<and> b < 0)) \<and> round_double (a * b) \<noteq> Fin 0"
proof
  assume n: "dlt0 (round_double (a * b))"
  then have "a * b < 0" by (rule dlt0_round_double)
  then have "(a < 0 \<and> 0 < b) \<or> (0 < a \<and> b < 0)" by (auto simp: mult_less_0_iff)
  moreover have "round_double (a * b) \<noteq> Fin 0" using n by auto
  ultimately show "((a < 0 \<and> 0 < b) \<or> (0 < a \<and> b < 0)) \<and> round_double (a * b) \<noteq> Fin 0" ..
next
  assume h: "((a < 0 \<and> 0 < b) \<or> (0 < a \<and> b < 0)) \<and> round_double (a * b) \<noteq> Fin 0"
  then have neg: "a * b < 0" by (auto simp: mult_less_0_iff)
  show "dlt0 (round_double (a * b))"
  proof (cases "round_double (a * b)")
    case (Fin u)
    then have "\<not> 0 < u" using round_double_sign [of "a * b"] neg by auto
    moreover have "u \<noteq> 0" using h Fin by simp
    ultimately show ?thesis using Fin by simp
  next
    case PlusInfinity
    then show ?thesis using round_double_sign [of "a * b"] neg by auto
  next
    case MinusInfinity
    then show ?thesis by simp
  next
    case NotANumber
    then show ?thesis using round_double_never_nan [of "a * b"] by simp
  qed
qed

lemma guard_iff: "dlt0 (dmul x y) \<longleftrightarrow> opposite_signs x y \<and> dmul x y \<noteq> Fin 0"
proof (cases x)
  case fx: (Fin a)
  show ?thesis
  proof (cases y)
    case (Fin b)
    show ?thesis unfolding fx Fin opposite_signs_def
      using dmul_Fin_negative [of a b] by auto
  qed (auto simp: fx opposite_signs_def infinity_of_sign_def)
qed (cases y; auto simp: opposite_signs_def infinity_of_sign_def)+

lemma opposite_signs_exact:
  assumes "opposite_signs (dsub (Fin a) (Fin b)) (dsub (Fin c) (Fin d))"
  shows "(a - b < 0 \<and> 0 < c - d) \<or> (0 < a - b \<and> c - d < 0)"
  using assms unfolding opposite_signs_def dsub_Fin
  by (blast dest: dlt0_round_double dgt0_round_double)

lemma guard_prevDiff: "dlt0 (dmul x y) \<Longrightarrow> x \<noteq> Fin 0"
  by (cases y) (auto simp: round_double_zero infinity_of_sign_def)

subsection \<open>Bounds on the weight and the date\<close>

lemma round_double_ge:
  assumes "is_double lo" and "0 < lo" and "lo \<le> x" and "round_double x = Fin t"
  shows "lo \<le> t"
proof -
  have x: "0 < x" using assms(2,3) by linarith
  have t: "t = round_size x"
    using assms(4) round_double_pos [OF x] by (simp split: if_splits)
  have "round_size lo = lo" using assms(1,2) is_double_pos by blast
  moreover have "round_size lo \<le> round_size x" using assms(2,3) by (rule round_size_mono)
  ultimately show ?thesis using t by simp
qed

lemma is_double_one: "is_double 1"
  using is_double_int [of 1] by simp

lemma sum_of_sizes:
  assumes "is_double p" and "p \<noteq> 0" and "dc \<noteq> NotANumber"
  shows "dadd (dabs (Fin p)) (dabs dc) = PlusInfinity
       \<or> (\<exists>t. dadd (dabs (Fin p)) (dabs dc) = Fin t \<and> \<bar>p\<bar> \<le> t)"
proof (cases dc)
  case (Fin q)
  have x: "0 < \<bar>p\<bar> + \<bar>q\<bar>" using assms(2) by simp
  have d: "is_double \<bar>p\<bar>" using assms(1) by (simp only: is_double_abs)
  show ?thesis
  proof (cases "round_double (\<bar>p\<bar> + \<bar>q\<bar>)")
    case f: (Fin t)
    have "\<bar>p\<bar> \<le> t" using d _ _ f by (rule round_double_ge) (use assms(2) in simp_all)
    then show ?thesis using Fin f by simp
  next
    case PlusInfinity
    then show ?thesis using Fin by simp
  next
    case MinusInfinity
    then show ?thesis using round_double_sign [of "\<bar>p\<bar> + \<bar>q\<bar>"] x by simp
  next
    case NotANumber
    then show ?thesis using round_double_never_nan [of "\<bar>p\<bar> + \<bar>q\<bar>"] by simp
  qed
qed (use assms(3) in simp_all)

lemma weight_bounds:
  assumes "is_double p" and "p \<noteq> 0" and "dc \<noteq> NotANumber"
  shows "\<exists>r. weight_of_diffs (Fin p) dc = Fin r \<and> 0 \<le> r \<and> r \<le> 1"
proof -
  from sum_of_sizes [OF assms]
  consider "dadd (dabs (Fin p)) (dabs dc) = PlusInfinity"
    | t where "dadd (dabs (Fin p)) (dabs dc) = Fin t" and "\<bar>p\<bar> \<le> t" by blast
  then show ?thesis
  proof cases
    case 1
    then show ?thesis by (simp add: weight_of_diffs_def)
  next
    case 2
    have t: "0 < t" using 2(2) assms(2) by linarith
    have lo: "0 \<le> \<bar>p\<bar> / t" using t by simp
    have hi: "\<bar>p\<bar> / t \<le> 1" using t 2(2) by simp
    obtain r where "round_double (\<bar>p\<bar> / t) = Fin r" "0 \<le> r" "r \<le> 1"
      using round_double_between [OF lo hi is_double_zero is_double_one] by blast
    then show ?thesis using 2(1) t by (simp add: weight_of_diffs_def)
  qed
qed

lemma truncate_ms_between:
  assumes "real_of_int lo \<le> t" and "t \<le> real_of_int hi"
  shows "lo \<le> truncate_ms t" and "truncate_ms t \<le> hi"
proof -
  show "lo \<le> truncate_ms t"
    using assms(1) by (simp add: truncate_ms_def le_floor_iff le_ceiling_iff)
  show "truncate_ms t \<le> hi"
    using assms(2) by (simp add: truncate_ms_def floor_le_iff ceiling_le_iff)
qed

lemma date_bounds:
  assumes "tp < tc" and "tc - tp \<le> 2 ^ 53"
    and "\<bar>tp\<bar> \<le> 8640000000000000" and "\<bar>tc\<bar> \<le> 8640000000000000"
    and "0 \<le> r" and "r \<le> 1"
  shows "\<exists>t. new_Date (interpolate (getTime tp) (getTime tc) (Fin r)) = TimeValue t \<and> tp \<le> t \<and> t \<le> tc"
proof -
  have dp: "is_double (of_int tp)" using assms(3) by (intro is_double_int) simp
  have dc: "is_double (of_int tc)" using assms(4) by (intro is_double_int) simp
  have dd: "is_double (of_int (tc - tp))" using assms(1,2) by (intro is_double_int) simp
  have span: "dsub (getTime tc) (getTime tp) = Fin (of_int (tc - tp))"
    using dd by (simp add: getTime_def dsub_Fin is_double_def)
  have "0 \<le> of_int (tc - tp) * r" using assms(1,5) by simp
  moreover have "of_int (tc - tp) * r \<le> of_int (tc - tp)"
    using assms(1,6) by (simp add: mult_left_le)
  ultimately obtain s where s: "round_double (of_int (tc - tp) * r) = Fin s" "0 \<le> s" "s \<le> of_int (tc - tp)"
    using round_double_between [OF _ _ is_double_zero dd] by blast
  have "of_int tp \<le> of_int tp + s" using s(2) by simp
  moreover have "of_int tp + s \<le> of_int tc" using s(3) by simp
  ultimately obtain u where u: "round_double (of_int tp + s) = Fin u" "of_int tp \<le> u" "u \<le> of_int tc"
    using round_double_between [OF _ _ dp dc] by blast
  have i: "interpolate (getTime tp) (getTime tc) (Fin r) = Fin u"
    unfolding interpolate_def span using s(1) u(1) by (simp add: getTime_def)
  have "\<bar>u\<bar> \<le> 8640000000000000" using u(2,3) assms(3,4) by linarith
  then have "new_Date (Fin u) = TimeValue (truncate_ms u)" by (simp add: new_Date_def)
  then show ?thesis using truncate_ms_between [OF u(2,3)] i by simp
qed

subsection \<open>Rounding a given real\<close>

text \<open>
  A real \<open>x\<close> with \<open>2\<^sup>e \<le> |x| < 2\<^sup>e\<^sup>+\<^sup>1\<close> rounds to \<open>m\<close> times \<open>2\<^sup>e\<^sup>-\<^sup>5\<^sup>2\<close>, where \<open>m\<close> is the whole
  number nearest to \<open>|x| / 2\<^sup>e\<^sup>-\<^sup>5\<^sup>2\<close>, the even one of the two when \<open>x\<close> is halfway.
\<close>

lemma round_even_unique:
  assumes "\<bar>r - of_int m\<bar> < 1 / 2"
  shows "round_even r = m"
proof -
  have "\<bar>of_int (round_even r) - r\<bar> \<le> 1 / 2" by (rule round_even_near)
  with assms have "\<bar>real_of_int (round_even r) - of_int m\<bar> < 1" by linarith
  then have "\<bar>real_of_int (round_even r - m)\<bar> < 1" by simp
  then have "\<bar>round_even r - m\<bar> < 1" by linarith
  then show ?thesis by simp
qed

lemma round_even_tie:
  assumes "r = of_int f + 1 / 2"
  shows "round_even r = (if even f then f else f + 1)"
proof -
  have "\<lfloor>r\<rfloor> = f" unfolding assms by linarith
  then show ?thesis by (simp add: round_even_def Let_def assms)
qed

lemma round_size_normal:
  assumes "2 powi e \<le> a" and "a < 2 powi (e + 1)" and "- 1022 \<le> e" and "e < 1023"
    and "round_even (a / 2 powi (e - 52)) = m"
  shows "round_double a = Fin (of_int m * 2 powi (e - 52))"
proof -
  have a: "0 < a" using assms(1) by (rule less_le_trans [rotated]) simp
  have b: "binade a = e" using a assms(1,2) by (rule binade_unique)
  then have x: "expo a = e" using assms(3) by (simp add: expo_def)
  have s: "round_size a = of_int m * 2 powi (e - 52)"
    by (simp add: round_size_def quantum_expo x assms(5))
  have le: "round_size a \<le> 2 powi (e + 1)"
    by (rule round_size_le_power) (use x assms(2) in simp_all)
  have ge: "2 powi e \<le> round_size a"
    by (rule round_size_ge_power) (use x assms(1) in simp_all)
  have p: "0 < round_size a" using ge by (rule less_le_trans [rotated]) simp
  have "binade (round_size a) \<le> binade (2 powi (e + 1))" using p le by (rule binade_mono)
  then have "binade (round_size a) < 1024" using assms(4) by (simp add: binade_power)
  then show ?thesis using round_double_pos [OF a] s by simp
qed

lemma round_double_nearest:
  assumes "2 powi e \<le> \<bar>x\<bar>" and "\<bar>x\<bar> < 2 powi (e + 1)" and "- 1022 \<le> e" and "e < 1023"
    and "\<bar>\<bar>x\<bar> / 2 powi (e - 52) - of_int m\<bar> < 1 / 2"
    and "u = sgn x * (of_int m * 2 powi (e - 52))"
  shows "round_double x = Fin u"
proof -
  have r: "round_double \<bar>x\<bar> = Fin (of_int m * 2 powi (e - 52))"
    using assms(1-4) by (rule round_size_normal) (rule round_even_unique, fact)
  show ?thesis
  proof (cases "0 \<le> x")
    case True
    have "0 < \<bar>x\<bar>" using assms(1) by (rule less_le_trans [rotated]) simp
    then have "0 < x" using True by simp
    then show ?thesis using r assms(6) by simp
  next
    case False
    then have "round_double x = dneg (round_double \<bar>x\<bar>)"
      using round_double_neg [of "\<bar>x\<bar>"] by simp
    then show ?thesis using r assms(6) False by simp
  qed
qed

lemma round_double_halfway:
  assumes "2 powi e \<le> \<bar>x\<bar>" and "\<bar>x\<bar> < 2 powi (e + 1)" and "- 1022 \<le> e" and "e < 1023"
    and "\<bar>x\<bar> / 2 powi (e - 52) = of_int f + 1 / 2"
    and "u = sgn x * (of_int (if even f then f else f + 1) * 2 powi (e - 52))"
  shows "round_double x = Fin u"
proof -
  have r: "round_double \<bar>x\<bar> = Fin (of_int (if even f then f else f + 1) * 2 powi (e - 52))"
    using assms(1-4) by (rule round_size_normal) (rule round_even_tie, fact)
  show ?thesis
  proof (cases "0 \<le> x")
    case True
    have "0 < \<bar>x\<bar>" using assms(1) by (rule less_le_trans [rotated]) simp
    then have "0 < x" using True by simp
    then show ?thesis using r assms(6) by simp
  next
    case False
    then have "round_double x = dneg (round_double \<bar>x\<bar>)"
      using round_double_neg [of "\<bar>x\<bar>"] by simp
    then show ?thesis using r assms(6) False by simp
  qed
qed

lemma ddiv_Fin: "b \<noteq> 0 \<Longrightarrow> ddiv (Fin a) (Fin b) = round_double (a / b)"
  by simp

lemma dmul_Fin: "dmul (Fin a) (Fin b) = round_double (a * b)"
  by simp

lemma dadd_Fin: "dadd (Fin a) (Fin b) = round_double (a + b)"
  by simp

lemma for_each_single: "for_each body [x] = body x"
  by (cases "body x") simp_all

lemma findCrossovers_two:
  assumes "length (SeriesData.values a) = 2"
  shows "findCrossovers [a, b] = crossingsAt a b 1"
proof -
  have u: "[0..<2] = [0, 1]" "[Suc 0..<2] = [1]" "[2..<2] = []" by (simp_all add: upt_rec)
  show ?thesis
    by (cases "crossingsAt a b 1") (simp_all add: findCrossovers_def assms u Let_def)
qed

subsection \<open>The sample series, operation by operation\<close>

lemma climbing_prevDiff: "dsub (Fin 1) (Fin 2) = Fin (- 1)"
  unfolding dsub_Fin by (rule round_double_nearest [where e = 0 and m = 4503599627370496]) simp_all

lemma climbing_currDiff: "dsub (Fin 3) (Fin 2) = Fin 1"
  unfolding dsub_Fin by (rule round_double_nearest [where e = 0 and m = 4503599627370496]) simp_all

lemma climbing_product: "dmul (Fin (- 1)) (Fin 1) = Fin (- 1)"
  unfolding dmul_Fin by (rule round_double_nearest [where e = 0 and m = 4503599627370496]) simp_all

lemma climbing_weight: "weight_of_diffs (Fin (- 1)) (Fin 1) = Fin (1 / 2)"
proof -
  have p: "dabs (Fin (- 1)) = Fin 1" by simp
  have c: "dabs (Fin 1) = Fin 1" by simp
  have total: "round_double (1 + 1) = Fin 2"
    by (rule round_double_nearest [where e = 1 and m = 4503599627370496]) simp_all
  have nz: "(2::real) \<noteq> 0" by simp
  have ratio: "round_double (1 / 2) = Fin (1 / 2)"
    by (rule round_double_nearest [where e = "- 1" and m = 4503599627370496]) simp_all
  show ?thesis
    by (simp only: weight_of_diffs_def p c dadd_Fin total ddiv_Fin [OF nz] ratio)
qed

lemma climbing_instant: "interpolate (getTime 0) (getTime 1) (Fin (1 / 2)) = Fin (1 / 2)"
proof -
  have span: "round_double (1 - 0) = Fin 1"
    by (rule round_double_nearest [where e = 0 and m = 4503599627370496]) simp_all
  have part: "round_double (1 * (1 / 2)) = Fin (1 / 2)"
    by (rule round_double_nearest [where e = "- 1" and m = 4503599627370496]) simp_all
  have sum: "round_double (0 + (1 / 2)) = Fin (1 / 2)"
    by (rule round_double_nearest [where e = "- 1" and m = 4503599627370496]) simp_all
  show ?thesis
    by (simp only: interpolate_def getTime_def of_int_numeral of_int_0 of_int_1 dsub_Fin dmul_Fin dadd_Fin span part sum)
qed

lemma climbing_value: "interpolate (Fin 1) (Fin 3) (Fin (1 / 2)) = Fin 2"
proof -
  have span: "round_double (3 - 1) = Fin 2"
    by (rule round_double_nearest [where e = 1 and m = 4503599627370496]) simp_all
  have part: "round_double (2 * (1 / 2)) = Fin 1"
    by (rule round_double_nearest [where e = 0 and m = 4503599627370496]) simp_all
  have sum: "round_double (1 + 1) = Fin 2"
    by (rule round_double_nearest [where e = 1 and m = 4503599627370496]) simp_all
  show ?thesis
    by (simp only: interpolate_def dsub_Fin dmul_Fin dadd_Fin span part sum)
qed

lemma climbing_crossing:
  "crossingsAt climbing level 1 =
     Inr [\<lparr>CrossoverPoint.date = TimeValue 0, labelA = ''A'', labelB = ''B'',
           value = Fin 2\<rparr>]"
proof -
  have len: "1 < length (SeriesData.values level)"
    by (simp add: level_def series_of_def)
  have v: "SeriesPoint.value (SeriesData.values climbing ! (1 - 1)) = Some 1"
    "SeriesPoint.value (SeriesData.values climbing ! 1) = Some 3"
    "SeriesPoint.value (SeriesData.values level ! (1 - 1)) = Some 2"
    "SeriesPoint.value (SeriesData.values level ! 1) = Some 2"
    by (simp_all add: climbing_def level_def series_of_def)
  have t: "SeriesPoint.date (SeriesData.values climbing ! (1 - 1)) = 0"
    "SeriesPoint.date (SeriesData.values climbing ! 1) = 1"
    and l: "SeriesData.label climbing = ''A''" "SeriesData.label level = ''B''"
    by (simp_all add: climbing_def level_def series_of_def)
  have d: "new_Date (Fin (1 / 2)) = TimeValue 0"
    by (simp add: new_Date_def truncate_ms_def)
  show ?thesis
    unfolding crossingsAt_present [OF len v]
    by (simp only: t climbing_prevDiff climbing_currDiff climbing_product climbing_weight climbing_instant climbing_value d) (simp add: l)
qed

lemma climbing_slow_prevDiff: "dsub (Fin 1) (Fin 2) = Fin (- 1)"
  unfolding dsub_Fin by (rule round_double_nearest [where e = 0 and m = 4503599627370496]) simp_all

lemma climbing_slow_currDiff: "dsub (Fin 3) (Fin 2) = Fin 1"
  unfolding dsub_Fin by (rule round_double_nearest [where e = 0 and m = 4503599627370496]) simp_all

lemma climbing_slow_product: "dmul (Fin (- 1)) (Fin 1) = Fin (- 1)"
  unfolding dmul_Fin by (rule round_double_nearest [where e = 0 and m = 4503599627370496]) simp_all

lemma climbing_slow_weight: "weight_of_diffs (Fin (- 1)) (Fin 1) = Fin (1 / 2)"
proof -
  have p: "dabs (Fin (- 1)) = Fin 1" by simp
  have c: "dabs (Fin 1) = Fin 1" by simp
  have total: "round_double (1 + 1) = Fin 2"
    by (rule round_double_nearest [where e = 1 and m = 4503599627370496]) simp_all
  have nz: "(2::real) \<noteq> 0" by simp
  have ratio: "round_double (1 / 2) = Fin (1 / 2)"
    by (rule round_double_nearest [where e = "- 1" and m = 4503599627370496]) simp_all
  show ?thesis
    by (simp only: weight_of_diffs_def p c dadd_Fin total ddiv_Fin [OF nz] ratio)
qed

lemma climbing_slow_instant: "interpolate (getTime 0) (getTime 1000) (Fin (1 / 2)) = Fin 500"
proof -
  have span: "round_double (1000 - 0) = Fin 1000"
    by (rule round_double_nearest [where e = 9 and m = 8796093022208000]) simp_all
  have part: "round_double (1000 * (1 / 2)) = Fin 500"
    by (rule round_double_nearest [where e = 8 and m = 8796093022208000]) simp_all
  have sum: "round_double (0 + 500) = Fin 500"
    by (rule round_double_nearest [where e = 8 and m = 8796093022208000]) simp_all
  show ?thesis
    by (simp only: interpolate_def getTime_def of_int_numeral of_int_0 of_int_1 dsub_Fin dmul_Fin dadd_Fin span part sum)
qed

lemma climbing_slow_value: "interpolate (Fin 1) (Fin 3) (Fin (1 / 2)) = Fin 2"
proof -
  have span: "round_double (3 - 1) = Fin 2"
    by (rule round_double_nearest [where e = 1 and m = 4503599627370496]) simp_all
  have part: "round_double (2 * (1 / 2)) = Fin 1"
    by (rule round_double_nearest [where e = 0 and m = 4503599627370496]) simp_all
  have sum: "round_double (1 + 1) = Fin 2"
    by (rule round_double_nearest [where e = 1 and m = 4503599627370496]) simp_all
  show ?thesis
    by (simp only: interpolate_def dsub_Fin dmul_Fin dadd_Fin span part sum)
qed

lemma climbing_slow_crossing:
  "crossingsAt climbing_slow level_slow 1 =
     Inr [\<lparr>CrossoverPoint.date = TimeValue 500, labelA = ''A'', labelB = ''B'',
           value = Fin 2\<rparr>]"
proof -
  have len: "1 < length (SeriesData.values level_slow)"
    by (simp add: level_slow_def series_of_def)
  have v: "SeriesPoint.value (SeriesData.values climbing_slow ! (1 - 1)) = Some 1"
    "SeriesPoint.value (SeriesData.values climbing_slow ! 1) = Some 3"
    "SeriesPoint.value (SeriesData.values level_slow ! (1 - 1)) = Some 2"
    "SeriesPoint.value (SeriesData.values level_slow ! 1) = Some 2"
    by (simp_all add: climbing_slow_def level_slow_def series_of_def)
  have t: "SeriesPoint.date (SeriesData.values climbing_slow ! (1 - 1)) = 0"
    "SeriesPoint.date (SeriesData.values climbing_slow ! 1) = 1000"
    and l: "SeriesData.label climbing_slow = ''A''" "SeriesData.label level_slow = ''B''"
    by (simp_all add: climbing_slow_def level_slow_def series_of_def)
  have d: "new_Date (Fin 500) = TimeValue 500"
    by (simp add: new_Date_def truncate_ms_def)
  show ?thesis
    unfolding crossingsAt_present [OF len v]
    by (simp only: t climbing_slow_prevDiff climbing_slow_currDiff climbing_slow_product climbing_slow_weight climbing_slow_instant climbing_slow_value d) (simp add: l)
qed

lemma steep_prevDiff: "dsub (Fin 0) (Fin 1) = Fin (- 1)"
  unfolding dsub_Fin by (rule round_double_nearest [where e = 0 and m = 4503599627370496]) simp_all

lemma steep_currDiff: "dsub (Fin 4) (Fin 1) = Fin 3"
  unfolding dsub_Fin by (rule round_double_nearest [where e = 1 and m = 6755399441055744]) simp_all

lemma steep_product: "dmul (Fin (- 1)) (Fin 3) = Fin (- 3)"
  unfolding dmul_Fin by (rule round_double_nearest [where e = 1 and m = 6755399441055744]) simp_all

lemma steep_weight: "weight_of_diffs (Fin (- 1)) (Fin 3) = Fin (1 / 4)"
proof -
  have p: "dabs (Fin (- 1)) = Fin 1" by simp
  have c: "dabs (Fin 3) = Fin 3" by simp
  have total: "round_double (1 + 3) = Fin 4"
    by (rule round_double_nearest [where e = 2 and m = 4503599627370496]) simp_all
  have nz: "(4::real) \<noteq> 0" by simp
  have ratio: "round_double (1 / 4) = Fin (1 / 4)"
    by (rule round_double_nearest [where e = "- 2" and m = 4503599627370496]) simp_all
  show ?thesis
    by (simp only: weight_of_diffs_def p c dadd_Fin total ddiv_Fin [OF nz] ratio)
qed

lemma steep_instant: "interpolate (getTime 0) (getTime 3) (Fin (1 / 4)) = Fin (3 / 4)"
proof -
  have span: "round_double (3 - 0) = Fin 3"
    by (rule round_double_nearest [where e = 1 and m = 6755399441055744]) simp_all
  have part: "round_double (3 * (1 / 4)) = Fin (3 / 4)"
    by (rule round_double_nearest [where e = "- 1" and m = 6755399441055744]) simp_all
  have sum: "round_double (0 + (3 / 4)) = Fin (3 / 4)"
    by (rule round_double_nearest [where e = "- 1" and m = 6755399441055744]) simp_all
  show ?thesis
    by (simp only: interpolate_def getTime_def of_int_numeral of_int_0 of_int_1 dsub_Fin dmul_Fin dadd_Fin span part sum)
qed

lemma steep_value: "interpolate (Fin 0) (Fin 4) (Fin (1 / 4)) = Fin 1"
proof -
  have span: "round_double (4 - 0) = Fin 4"
    by (rule round_double_nearest [where e = 2 and m = 4503599627370496]) simp_all
  have part: "round_double (4 * (1 / 4)) = Fin 1"
    by (rule round_double_nearest [where e = 0 and m = 4503599627370496]) simp_all
  have sum: "round_double (0 + 1) = Fin 1"
    by (rule round_double_nearest [where e = 0 and m = 4503599627370496]) simp_all
  show ?thesis
    by (simp only: interpolate_def dsub_Fin dmul_Fin dadd_Fin span part sum)
qed

lemma steep_crossing:
  "crossingsAt steep low 1 =
     Inr [\<lparr>CrossoverPoint.date = TimeValue 0, labelA = ''A'', labelB = ''B'',
           value = Fin 1\<rparr>]"
proof -
  have len: "1 < length (SeriesData.values low)"
    by (simp add: low_def series_of_def)
  have v: "SeriesPoint.value (SeriesData.values steep ! (1 - 1)) = Some 0"
    "SeriesPoint.value (SeriesData.values steep ! 1) = Some 4"
    "SeriesPoint.value (SeriesData.values low ! (1 - 1)) = Some 1"
    "SeriesPoint.value (SeriesData.values low ! 1) = Some 1"
    by (simp_all add: steep_def low_def series_of_def)
  have t: "SeriesPoint.date (SeriesData.values steep ! (1 - 1)) = 0"
    "SeriesPoint.date (SeriesData.values steep ! 1) = 3"
    and l: "SeriesData.label steep = ''A''" "SeriesData.label low = ''B''"
    by (simp_all add: steep_def low_def series_of_def)
  have d: "new_Date (Fin (3 / 4)) = TimeValue 0"
    by (simp add: new_Date_def truncate_ms_def)
  show ?thesis
    unfolding crossingsAt_present [OF len v]
    by (simp only: t steep_prevDiff steep_currDiff steep_product steep_weight steep_instant steep_value d) (simp add: l)
qed

lemma tenths_prevDiff: "dsub (Fin (2476979795053773 / 2251799813685248)) (Fin (5404319552844595 / 4503599627370496)) = Fin (- 450359962737049 / 4503599627370496)"
  unfolding dsub_Fin by (rule round_double_nearest [where e = "- 4" and m = 7205759403792784]) simp_all

lemma tenths_currDiff: "dsub (Fin (5854679515581645 / 4503599627370496)) (Fin (5404319552844595 / 4503599627370496)) = Fin (225179981368525 / 2251799813685248)"
  unfolding dsub_Fin by (rule round_double_nearest [where e = "- 4" and m = 7205759403792800]) simp_all

lemma tenths_product: "dmul (Fin (- 450359962737049 / 4503599627370496)) (Fin (225179981368525 / 2251799813685248)) = Fin (- 720575940379279 / 72057594037927936)"
  unfolding dmul_Fin by (rule round_double_nearest [where e = "- 7" and m = 5764607523034232]) simp_all

lemma tenths_weight: "weight_of_diffs (Fin (- 450359962737049 / 4503599627370496)) (Fin (225179981368525 / 2251799813685248)) = Fin (4503599627370491 / 9007199254740992)"
proof -
  have p: "dabs (Fin (- 450359962737049 / 4503599627370496)) = Fin (450359962737049 / 4503599627370496)" by simp
  have c: "dabs (Fin (225179981368525 / 2251799813685248)) = Fin (225179981368525 / 2251799813685248)" by simp
  have total: "round_double ((450359962737049 / 4503599627370496) + (225179981368525 / 2251799813685248)) = Fin (900719925474099 / 4503599627370496)"
    by (rule round_double_nearest [where e = "- 3" and m = 7205759403792792]) simp_all
  have nz: "((900719925474099 / 4503599627370496)::real) \<noteq> 0" by simp
  have ratio: "round_double ((450359962737049 / 4503599627370496) / (900719925474099 / 4503599627370496)) = Fin (4503599627370491 / 9007199254740992)"
    by (rule round_double_nearest [where e = "- 2" and m = 9007199254740982]) simp_all
  show ?thesis
    by (simp only: weight_of_diffs_def p c dadd_Fin total ddiv_Fin [OF nz] ratio)
qed

lemma tenths_instant: "interpolate (getTime 0) (getTime 1000) (Fin (4503599627370491 / 9007199254740992)) = Fin (4398046511103995 / 8796093022208)"
proof -
  have span: "round_double (1000 - 0) = Fin 1000"
    by (rule round_double_nearest [where e = 9 and m = 8796093022208000]) simp_all
  have part: "round_double (1000 * (4503599627370491 / 9007199254740992)) = Fin (4398046511103995 / 8796093022208)"
    by (rule round_double_nearest [where e = 8 and m = 8796093022207990]) simp_all
  have sum: "round_double (0 + (4398046511103995 / 8796093022208)) = Fin (4398046511103995 / 8796093022208)"
    by (rule round_double_nearest [where e = 8 and m = 8796093022207990]) simp_all
  show ?thesis
    by (simp only: interpolate_def getTime_def of_int_numeral of_int_0 of_int_1 dsub_Fin dmul_Fin dadd_Fin span part sum)
qed

lemma tenths_value: "interpolate (Fin (2476979795053773 / 2251799813685248)) (Fin (5854679515581645 / 4503599627370496)) (Fin (4503599627370491 / 9007199254740992)) = Fin (5404319552844595 / 4503599627370496)"
proof -
  have span: "round_double ((5854679515581645 / 4503599627370496) - (2476979795053773 / 2251799813685248)) = Fin (900719925474099 / 4503599627370496)"
    by (rule round_double_nearest [where e = "- 3" and m = 7205759403792792]) simp_all
  have part: "round_double ((900719925474099 / 4503599627370496) * (4503599627370491 / 9007199254740992)) = Fin (450359962737049 / 4503599627370496)"
    by (rule round_double_nearest [where e = "- 4" and m = 7205759403792784]) simp_all
  have sum: "round_double ((2476979795053773 / 2251799813685248) + (450359962737049 / 4503599627370496)) = Fin (5404319552844595 / 4503599627370496)"
    by (rule round_double_nearest [where e = 0 and m = 5404319552844595]) simp_all
  show ?thesis
    by (simp only: interpolate_def dsub_Fin dmul_Fin dadd_Fin span part sum)
qed

lemma tenths_crossing:
  "crossingsAt tenths_up tenths_level 1 =
     Inr [\<lparr>CrossoverPoint.date = TimeValue 499, labelA = ''A'', labelB = ''B'',
           value = Fin (5404319552844595 / 4503599627370496)\<rparr>]"
proof -
  have len: "1 < length (SeriesData.values tenths_level)"
    by (simp add: tenths_level_def series_of_def)
  have v: "SeriesPoint.value (SeriesData.values tenths_up ! (1 - 1)) = Some (2476979795053773 / 2251799813685248)"
    "SeriesPoint.value (SeriesData.values tenths_up ! 1) = Some (5854679515581645 / 4503599627370496)"
    "SeriesPoint.value (SeriesData.values tenths_level ! (1 - 1)) = Some (5404319552844595 / 4503599627370496)"
    "SeriesPoint.value (SeriesData.values tenths_level ! 1) = Some (5404319552844595 / 4503599627370496)"
    by (simp_all add: tenths_up_def tenths_level_def series_of_def)
  have t: "SeriesPoint.date (SeriesData.values tenths_up ! (1 - 1)) = 0"
    "SeriesPoint.date (SeriesData.values tenths_up ! 1) = 1000"
    and l: "SeriesData.label tenths_up = ''A''" "SeriesData.label tenths_level = ''B''"
    by (simp_all add: tenths_up_def tenths_level_def series_of_def)
  have d: "new_Date (Fin (4398046511103995 / 8796093022208)) = TimeValue 499"
    by (simp add: new_Date_def truncate_ms_def)
  show ?thesis
    unfolding crossingsAt_present [OF len v]
    by (simp only: t tenths_prevDiff tenths_currDiff tenths_product tenths_weight tenths_instant tenths_value d) (simp add: l)
qed

lemma closing_prevDiff: "dsub (Fin (5645262132908917 / 1125899906842624)) (Fin (4519362226066293 / 1125899906842624)) = Fin 1"
  unfolding dsub_Fin by (rule round_double_nearest [where e = 0 and m = 4503599627370496]) simp_all

lemma closing_currDiff: "dsub (Fin (3134505340649865 / 4503599627370496)) (Fin (6269010681299731 / 9007199254740992)) = Fin (- 1 / 9007199254740992)"
  unfolding dsub_Fin by (rule round_double_nearest [where e = "- 53" and m = 4503599627370496]) simp_all

lemma closing_product: "dmul (Fin 1) (Fin (- 1 / 9007199254740992)) = Fin (- 1 / 9007199254740992)"
  unfolding dmul_Fin by (rule round_double_nearest [where e = "- 53" and m = 4503599627370496]) simp_all

lemma closing_weight: "weight_of_diffs (Fin 1) (Fin (- 1 / 9007199254740992)) = Fin 1"
proof -
  have p: "dabs (Fin 1) = Fin 1" by simp
  have c: "dabs (Fin (- 1 / 9007199254740992)) = Fin (1 / 9007199254740992)" by simp
  have total: "round_double (1 + (1 / 9007199254740992)) = Fin 1"
    by (rule round_double_halfway [where e = 0 and f = 4503599627370496]) simp_all
  have nz: "(1::real) \<noteq> 0" by simp
  have ratio: "round_double (1 / 1) = Fin 1"
    by (rule round_double_nearest [where e = 0 and m = 4503599627370496]) simp_all
  show ?thesis
    by (simp only: weight_of_diffs_def p c dadd_Fin total ddiv_Fin [OF nz] ratio)
qed

lemma closing_instant: "interpolate (getTime 0) (getTime 1000) (Fin 1) = Fin 1000"
proof -
  have span: "round_double (1000 - 0) = Fin 1000"
    by (rule round_double_nearest [where e = 9 and m = 8796093022208000]) simp_all
  have part: "round_double (1000 * 1) = Fin 1000"
    by (rule round_double_nearest [where e = 9 and m = 8796093022208000]) simp_all
  have sum: "round_double (0 + 1000) = Fin 1000"
    by (rule round_double_nearest [where e = 9 and m = 8796093022208000]) simp_all
  show ?thesis
    by (simp only: interpolate_def getTime_def of_int_numeral of_int_0 of_int_1 dsub_Fin dmul_Fin dadd_Fin span part sum)
qed

lemma closing_value: "interpolate (Fin (5645262132908917 / 1125899906842624)) (Fin (3134505340649865 / 4503599627370496)) (Fin 1) = Fin (391813167581233 / 562949953421312)"
proof -
  have span: "round_double ((3134505340649865 / 4503599627370496) - (5645262132908917 / 1125899906842624)) = Fin (- 4861635797746451 / 1125899906842624)"
    by (rule round_double_nearest [where e = 2 and m = 4861635797746451]) simp_all
  have part: "round_double ((- 4861635797746451 / 1125899906842624) * 1) = Fin (- 4861635797746451 / 1125899906842624)"
    by (rule round_double_nearest [where e = 2 and m = 4861635797746451]) simp_all
  have sum: "round_double ((5645262132908917 / 1125899906842624) + (- 4861635797746451 / 1125899906842624)) = Fin (391813167581233 / 562949953421312)"
    by (rule round_double_nearest [where e = "- 1" and m = 6269010681299728]) simp_all
  show ?thesis
    by (simp only: interpolate_def dsub_Fin dmul_Fin dadd_Fin span part sum)
qed

lemma closing_crossing:
  "crossingsAt closing closing_above 1 =
     Inr [\<lparr>CrossoverPoint.date = TimeValue 1000, labelA = ''A'', labelB = ''B'',
           value = Fin (391813167581233 / 562949953421312)\<rparr>]"
proof -
  have len: "1 < length (SeriesData.values closing_above)"
    by (simp add: closing_above_def series_of_def)
  have v: "SeriesPoint.value (SeriesData.values closing ! (1 - 1)) = Some (5645262132908917 / 1125899906842624)"
    "SeriesPoint.value (SeriesData.values closing ! 1) = Some (3134505340649865 / 4503599627370496)"
    "SeriesPoint.value (SeriesData.values closing_above ! (1 - 1)) = Some (4519362226066293 / 1125899906842624)"
    "SeriesPoint.value (SeriesData.values closing_above ! 1) = Some (6269010681299731 / 9007199254740992)"
    by (simp_all add: closing_def closing_above_def series_of_def)
  have t: "SeriesPoint.date (SeriesData.values closing ! (1 - 1)) = 0"
    "SeriesPoint.date (SeriesData.values closing ! 1) = 1000"
    and l: "SeriesData.label closing = ''A''" "SeriesData.label closing_above = ''B''"
    by (simp_all add: closing_def closing_above_def series_of_def)
  have d: "new_Date (Fin 1000) = TimeValue 1000"
    by (simp add: new_Date_def truncate_ms_def)
  show ?thesis
    unfolding crossingsAt_present [OF len v]
    by (simp only: t closing_prevDiff closing_currDiff closing_product closing_weight closing_instant closing_value d) (simp add: l)
qed

lemma rising_first_round: "crossingsAt rising falling 1 = Inr []"
proof -
  have len: "1 < length (SeriesData.values falling)"
    by (simp add: falling_def series_of_def)
  have v: "SeriesPoint.value (SeriesData.values rising ! (1 - 1)) = Some 1"
    "SeriesPoint.value (SeriesData.values rising ! 1) = Some 2"
    "SeriesPoint.value (SeriesData.values falling ! (1 - 1)) = Some 3"
    "SeriesPoint.value (SeriesData.values falling ! 1) = Some 2"
    by (simp_all add: rising_def falling_def series_of_def)
  have p: "dsub (Fin 1) (Fin 3) = Fin (- 2)"
    unfolding dsub_Fin by (rule round_double_nearest [where e = 1 and m = 4503599627370496]) simp_all
  have c: "dsub (Fin 2) (Fin 2) = Fin 0"
    by (simp add: dsub_Fin round_double_zero)
  have m: "dmul (Fin (- 2)) (Fin 0) = Fin 0"
    by (simp add: round_double_zero)
  show ?thesis
    unfolding crossingsAt_present [OF len v] by (simp only: p c m) simp
qed

lemma rising_second_round:
  "crossingsAt rising falling 2 =
     Inr [\<lparr>CrossoverPoint.date = TimeValue 1, labelA = ''A'', labelB = ''B'', value = Fin 2\<rparr>]"
proof -
  have len: "2 < length (SeriesData.values falling)"
    by (simp add: falling_def series_of_def)
  have v: "SeriesPoint.value (SeriesData.values rising ! (2 - 1)) = Some 2"
    "SeriesPoint.value (SeriesData.values rising ! 2) = Some 3"
    "SeriesPoint.value (SeriesData.values falling ! (2 - 1)) = Some 2"
    "SeriesPoint.value (SeriesData.values falling ! 2) = Some 1"
    by (simp_all add: rising_def falling_def series_of_def)
  have p: "dsub (Fin 2) (Fin 2) = Fin 0"
    by (simp add: dsub_Fin round_double_zero)
  show ?thesis
    unfolding crossingsAt_present [OF len v] by (simp add: p rising_def falling_def series_of_def)
qed

lemma findCrossovers_pair:
  "findCrossovers [a, b] = for_each (crossingsAt a b) [1..<length (SeriesData.values a)]"
proof -
  have u: "[0..<2] = [0, 1]" "[Suc 0..<2] = [1]" "[2..<2] = []" by (simp_all add: upt_rec)
  show ?thesis
    by (cases "for_each (crossingsAt a b) [1..<length (SeriesData.values a)]")
       (simp_all add: findCrossovers_def u Let_def)
qed

lemma rising_crossovers:
  "findCrossovers [rising, falling] =
     Inr [\<lparr>CrossoverPoint.date = TimeValue 1, labelA = ''A'', labelB = ''B'', value = Fin 2\<rparr>]"
proof -
  have u: "[1..<3] = [1, 2]" by (simp add: upt_rec)
  have n: "length (SeriesData.values rising) = 3"
    by (simp add: rising_def series_of_def)
  show ?thesis
    unfolding findCrossovers_pair n u
    by (simp only: for_each.simps rising_first_round rising_second_round) simp
qed

lemma tiny_prevDiff: "dsub (Fin (2 powi (- 600))) (Fin 0) = Fin (2 powi (- 600))"
  unfolding dsub_Fin by (rule round_double_nearest [where e = "- 600" and m = 4503599627370496]) simp_all

lemma tiny_currDiff: "dsub (Fin 0) (Fin (2 powi (- 600))) = Fin (- (2 powi (- 600)))"
  unfolding dsub_Fin by (rule round_double_nearest [where e = "- 600" and m = 4503599627370496]) simp_all

lemma tiny_product: "dmul (Fin (2 powi (- 600))) (Fin (- (2 powi (- 600)))) = Fin 0"
  unfolding dmul_Fin by (rule round_double_underflow) simp

lemma tiny_crossing: "crossingsAt tiny_down tiny_up 1 = Inr []"
proof -
  have len: "1 < length (SeriesData.values tiny_up)"
    by (simp add: tiny_up_def series_of_def)
  have v: "SeriesPoint.value (SeriesData.values tiny_down ! (1 - 1)) = Some (2 powi (- 600))"
    "SeriesPoint.value (SeriesData.values tiny_down ! 1) = Some 0"
    "SeriesPoint.value (SeriesData.values tiny_up ! (1 - 1)) = Some 0"
    "SeriesPoint.value (SeriesData.values tiny_up ! 1) = Some (2 powi (- 600))"
    by (simp_all add: tiny_down_def tiny_up_def series_of_def)
  show ?thesis
    unfolding crossingsAt_present [OF len v]
    by (simp only: tiny_prevDiff tiny_currDiff tiny_product) simp
qed

subsection \<open>The claims\<close>

lemma crossingsAt_projr:
  assumes "k < length (SeriesData.values b)"
  shows "crossingsAt a b k = Inr (projr (crossingsAt a b k))"
  using crossingsAt_total [OF assms, of a] by auto

lemma pair_loop_Inr:
  assumes "length (SeriesData.values a) = n" "length (SeriesData.values b) = n"
  shows "for_each (crossingsAt a b) [1..<length (SeriesData.values a)]
           = Inr (concat (map (\<lambda>k. projr (crossingsAt a b k)) [1..<n]))"
  unfolding assms(1)
  by (rule for_each_Inr) (auto simp: assms(2) intro: crossingsAt_projr)

lemma findCrossovers_aligned:
  assumes "\<forall>s \<in> set series. length (SeriesData.values s) = n"
  shows "findCrossovers series =
           Inr (concat (map (\<lambda>i. concat (map (\<lambda>j. pair_crossings series n i j) [i + 1..<length series]))
                  [0..<length series]))"
  unfolding findCrossovers_def Let_def
proof (rule for_each_Inr, rule ballI)
  fix i assume i: "i \<in> set [0..<length series]"
  show "for_each (\<lambda>j. for_each (crossingsAt (series ! i) (series ! j))
                        [1..<length (SeriesData.values (series ! i))]) [i + 1..<length series]
          = Inr (concat (map (\<lambda>j. pair_crossings series n i j) [i + 1..<length series]))"
  proof (rule for_each_Inr, rule ballI)
    fix j assume j: "j \<in> set [i + 1..<length series]"
    have "length (SeriesData.values (series ! i)) = n" "length (SeriesData.values (series ! j)) = n"
      using assms i j by auto
    then show "for_each (crossingsAt (series ! i) (series ! j)) [1..<length (SeriesData.values (series ! i))]
                 = Inr (pair_crossings series n i j)"
      unfolding pair_crossings_def by (rule pair_loop_Inr)
  qed
qed

lemma in_concat_map: "x \<in> set xs \<Longrightarrow> c \<in> set (f x) \<Longrightarrow> c \<in> set (concat (map f xs))"
  by auto

lemma findCrossovers_member:
  assumes "\<forall>s \<in> set series. length (SeriesData.values s) = n"
    and "i < j" "j < length series" "1 \<le> k" "k < n"
    and "crossingsAt (series ! i) (series ! j) k = Inr ys" "c \<in> set ys"
  shows "\<exists>cs. findCrossovers series = Inr cs \<and> c \<in> set cs"
proof -
  have k: "k \<in> set [1..<n]" using assms(4,5) by simp
  have j: "j \<in> set [i + 1..<length series]" using assms(2,3) by simp
  have i: "i \<in> set [0..<length series]" using assms(2,3) by simp
  have "c \<in> set (projr (crossingsAt (series ! i) (series ! j) k))"
    using assms(6,7) by simp
  with k have "c \<in> set (pair_crossings series n i j)"
    unfolding pair_crossings_def by (rule in_concat_map)
  with j have "c \<in> set (concat (map (\<lambda>j. pair_crossings series n i j) [i + 1..<length series]))"
    by (rule in_concat_map)
  with i have "c \<in> set (concat (map (\<lambda>i. concat (map (\<lambda>j. pair_crossings series n i j) [i + 1..<length series]))
                  [0..<length series]))"
    by (rule in_concat_map)
  then show ?thesis
    using findCrossovers_aligned [OF assms(1)] by simp
qed

lemma crossingsAt_equal:
  assumes "k < length (SeriesData.values b)"
    and "SeriesPoint.value (SeriesData.values a ! (k - 1)) = Some a_prev"
    and "SeriesPoint.value (SeriesData.values a ! k) = Some a_curr"
    and "SeriesPoint.value (SeriesData.values b ! (k - 1)) = Some b_prev"
    and "SeriesPoint.value (SeriesData.values b ! k) = Some b_curr"
    and "a_prev - b_prev = 0"
  shows "crossingsAt a b k =
           Inr [\<lparr>CrossoverPoint.date = TimeValue (SeriesPoint.date (SeriesData.values a ! (k - 1))),
                 labelA = SeriesData.label a, labelB = SeriesData.label b, value = Fin a_prev\<rparr>]"
proof -
  have "dsub (Fin a_prev) (Fin b_prev) = Fin 0"
    unfolding dsub_Fin assms(6) by (rule round_double_zero)
  then show ?thesis
    unfolding crossingsAt_present [OF assms(1-5)] by simp
qed

lemma crossingsAt_interpolated:
  assumes "k < length (SeriesData.values b)"
    and "SeriesPoint.value (SeriesData.values a ! (k - 1)) = Some a_prev"
    and "SeriesPoint.value (SeriesData.values a ! k) = Some a_curr"
    and "SeriesPoint.value (SeriesData.values b ! (k - 1)) = Some b_prev"
    and "SeriesPoint.value (SeriesData.values b ! k) = Some b_curr"
    and "dlt0 (dmul (dsub (Fin a_prev) (Fin b_prev)) (dsub (Fin a_curr) (Fin b_curr)))"
  shows "crossingsAt a b k =
           Inr [\<lparr>CrossoverPoint.date =
                   new_Date (interpolate (getTime (SeriesPoint.date (SeriesData.values a ! (k - 1))))
                               (getTime (SeriesPoint.date (SeriesData.values a ! k)))
                               (weight_of_diffs (dsub (Fin a_prev) (Fin b_prev))
                                                (dsub (Fin a_curr) (Fin b_curr)))),
                 labelA = SeriesData.label a, labelB = SeriesData.label b,
                 value = interpolate (Fin a_prev) (Fin a_curr)
                           (weight_of_diffs (dsub (Fin a_prev) (Fin b_prev))
                                            (dsub (Fin a_curr) (Fin b_curr)))\<rparr>]"
proof -
  have "dsub (Fin a_prev) (Fin b_prev) \<noteq> Fin 0" using assms(6) by (rule guard_prevDiff)
  then show ?thesis
    unfolding crossingsAt_present [OF assms(1-5)] using assms(6) by simp
qed

text \<open>
  Claim C4. For series of equal length, whenever the four values of a consecutive sample
  pair \<open>(k - 1, k)\<close> of two series are present and the two earlier values are equal, the
  round records exactly one crossover, at the date of sample \<open>k - 1\<close> with the value of
  the first series there, and that crossover is in the detector's result. On \<open>[1,2,3]\<close>
  and \<open>[3,2,1]\<close> at the times \<open>[0,1,2]\<close> the detector reports exactly one crossover, at time
  \<open>1\<close> with value \<open>2\<close>.
\<close>

theorem equal_samples_crossover:
  assumes "\<forall>s \<in> set series. length (SeriesData.values s) = n"
    and "i < j" and "j < length series" and "1 \<le> k" and "k < n"
    and "SeriesPoint.value (SeriesData.values (series ! i) ! (k - 1)) = Some a_prev"
    and "SeriesPoint.value (SeriesData.values (series ! i) ! k) = Some a_curr"
    and "SeriesPoint.value (SeriesData.values (series ! j) ! (k - 1)) = Some b_prev"
    and "SeriesPoint.value (SeriesData.values (series ! j) ! k) = Some b_curr"
    and "a_prev - b_prev = 0"
  shows "crossingsAt (series ! i) (series ! j) k =
           Inr [\<lparr>CrossoverPoint.date = TimeValue (SeriesPoint.date (SeriesData.values (series ! i) ! (k - 1))),
                 labelA = SeriesData.label (series ! i), labelB = SeriesData.label (series ! j),
                 value = Fin a_prev\<rparr>]
       \<and> (\<exists>cs. findCrossovers series = Inr cs
              \<and> \<lparr>CrossoverPoint.date = TimeValue (SeriesPoint.date (SeriesData.values (series ! i) ! (k - 1))),
                  labelA = SeriesData.label (series ! i), labelB = SeriesData.label (series ! j),
                  value = Fin a_prev\<rparr> \<in> set cs)
       \<and> findCrossovers [rising, falling] =
           Inr [\<lparr>CrossoverPoint.date = TimeValue 1, labelA = ''A'', labelB = ''B'', value = Fin 2\<rparr>]"
proof -
  have len: "k < length (SeriesData.values (series ! j))"
    using assms(1,3,5) by simp
  have step: "crossingsAt (series ! i) (series ! j) k =
           Inr [\<lparr>CrossoverPoint.date = TimeValue (SeriesPoint.date (SeriesData.values (series ! i) ! (k - 1))),
                 labelA = SeriesData.label (series ! i), labelB = SeriesData.label (series ! j),
                 value = Fin a_prev\<rparr>]"
    using len assms(6-10) by (rule crossingsAt_equal)
  have mem: "\<exists>cs. findCrossovers series = Inr cs
              \<and> \<lparr>CrossoverPoint.date = TimeValue (SeriesPoint.date (SeriesData.values (series ! i) ! (k - 1))),
                  labelA = SeriesData.label (series ! i), labelB = SeriesData.label (series ! j),
                  value = Fin a_prev\<rparr> \<in> set cs"
    using assms(1-5) step by (rule findCrossovers_member) simp
  from step mem rising_crossovers show ?thesis by (intro conjI)
qed

theorem equal_samples_crossover_witness:
  "crossingsAt rising falling 2 =
     Inr [\<lparr>CrossoverPoint.date = TimeValue 1, labelA = ''A'', labelB = ''B'', value = Fin 2\<rparr>]"
proof -
  have al: "\<forall>s \<in> set [rising, falling]. length (SeriesData.values s) = 3"
    by (simp add: rising_def falling_def series_of_def)
  have v: "SeriesPoint.value (SeriesData.values ([rising, falling] ! 0) ! (2 - 1)) = Some 2"
    "SeriesPoint.value (SeriesData.values ([rising, falling] ! 0) ! 2) = Some 3"
    "SeriesPoint.value (SeriesData.values ([rising, falling] ! 1) ! (2 - 1)) = Some 2"
    "SeriesPoint.value (SeriesData.values ([rising, falling] ! 1) ! 2) = Some 1"
    by (simp_all add: rising_def falling_def series_of_def)
  have "crossingsAt ([rising, falling] ! 0) ([rising, falling] ! 1) 2 =
           Inr [\<lparr>CrossoverPoint.date = TimeValue (SeriesPoint.date (SeriesData.values ([rising, falling] ! 0) ! (2 - 1))),
                 labelA = SeriesData.label ([rising, falling] ! 0), labelB = SeriesData.label ([rising, falling] ! 1),
                 value = Fin 2\<rparr>]"
    using equal_samples_crossover [OF al _ _ _ _ v] by simp
  then show ?thesis by (simp add: rising_def falling_def series_of_def)
qed

text \<open>
  Claim C5, as stated, fails twice. The detector stores the interpolated instant through
  \<^verbatim>\<open>new Date\<close>, which keeps whole milliseconds only: on \<open>[1,3]\<close> against \<open>[2,2]\<close> at the
  times \<open>[0,1]\<close> the crossover it reports has the time value \<open>0\<close>, while the interpolation
  formula gives \<open>1/2\<close>. And it tests the sign of the product of the two differences, which
  is zero when it underflows: on \<open>[2\<^sup>-\<^sup>6\<^sup>0\<^sup>0, 0]\<close> against \<open>[0, 2\<^sup>-\<^sup>6\<^sup>0\<^sup>0]\<close> the differences have
  opposite signs and no crossover is reported.
\<close>

theorem interpolated_time_counterexample:
  "findCrossovers [climbing, level] =
     Inr [\<lparr>CrossoverPoint.date = TimeValue 0, labelA = ''A'', labelB = ''B'', value = Fin 2\<rparr>]
   \<and> interpolate (getTime 0) (getTime 1) (weight_of_diffs (dsub (Fin 1) (Fin 2)) (dsub (Fin 3) (Fin 2)))
       = Fin (1 / 2)
   \<and> opposite_signs (dsub (Fin (2 powi (- 600))) (Fin 0)) (dsub (Fin 0) (Fin (2 powi (- 600))))
   \<and> findCrossovers [tiny_down, tiny_up] = Inr []"
proof -
  have n: "length (SeriesData.values climbing) = 2" "length (SeriesData.values tiny_down) = 2"
    by (simp_all add: climbing_def tiny_down_def series_of_def)
  have a: "findCrossovers [climbing, level] =
     Inr [\<lparr>CrossoverPoint.date = TimeValue 0, labelA = ''A'', labelB = ''B'', value = Fin 2\<rparr>]"
    unfolding findCrossovers_two [OF n(1)] by (rule climbing_crossing)
  have b: "interpolate (getTime 0) (getTime 1) (weight_of_diffs (dsub (Fin 1) (Fin 2)) (dsub (Fin 3) (Fin 2)))
       = Fin (1 / 2)"
    by (simp only: climbing_prevDiff climbing_currDiff climbing_weight climbing_instant)
  have c: "opposite_signs (dsub (Fin (2 powi (- 600))) (Fin 0)) (dsub (Fin 0) (Fin (2 powi (- 600))))"
    unfolding tiny_prevDiff tiny_currDiff by (simp add: opposite_signs_def)
  have d: "findCrossovers [tiny_down, tiny_up] = Inr []"
    unfolding findCrossovers_two [OF n(2)] by (rule tiny_crossing)
  from a b c d show ?thesis by (intro conjI)
qed

text \<open>
  Claim C5, amended. For series of equal length, whenever the four values of a
  consecutive sample pair \<open>(k - 1, k)\<close> of two series are present, the computed differences
  \<open>diff(k - 1)\<close> and \<open>diff(k)\<close> have opposite signs and their computed product is not zero,
  the round records exactly one crossover, which is in the detector's result. Its value is
  \<open>A(k - 1) + (A(k) - A(k - 1)) * ratio\<close> and its date is \<^verbatim>\<open>new Date\<close> of the instant
  \<open>time(k - 1) + (time(k) - time(k - 1)) * ratio\<close>, that is the instant with the fraction of
  a millisecond dropped, where \<open>ratio = |diff(k - 1)| / (|diff(k - 1)| + |diff(k)|)\<close> and
  every operation is rounded to a double. The exact differences then have opposite signs
  too. On \<open>[1,3]\<close> against \<open>[2,2]\<close> at the times \<open>[0,1]\<close> the detector reports one crossover,
  with the time value \<open>0\<close> and the value \<open>2\<close>.
\<close>

theorem opposite_signs_crossover:
  assumes "\<forall>s \<in> set series. length (SeriesData.values s) = n"
    and "i < j" and "j < length series" and "1 \<le> k" and "k < n"
    and "SeriesPoint.value (SeriesData.values (series ! i) ! (k - 1)) = Some a_prev"
    and "SeriesPoint.value (SeriesData.values (series ! i) ! k) = Some a_curr"
    and "SeriesPoint.value (SeriesData.values (series ! j) ! (k - 1)) = Some b_prev"
    and "SeriesPoint.value (SeriesData.values (series ! j) ! k) = Some b_curr"
    and "opposite_signs (dsub (Fin a_prev) (Fin b_prev)) (dsub (Fin a_curr) (Fin b_curr))"
    and "dmul (dsub (Fin a_prev) (Fin b_prev)) (dsub (Fin a_curr) (Fin b_curr)) \<noteq> Fin 0"
  shows "crossingsAt (series ! i) (series ! j) k =
           Inr [\<lparr>CrossoverPoint.date =
                   new_Date (interpolate
                     (getTime (SeriesPoint.date (SeriesData.values (series ! i) ! (k - 1))))
                     (getTime (SeriesPoint.date (SeriesData.values (series ! i) ! k)))
                     (weight_of_diffs (dsub (Fin a_prev) (Fin b_prev)) (dsub (Fin a_curr) (Fin b_curr)))),
                 labelA = SeriesData.label (series ! i), labelB = SeriesData.label (series ! j),
                 value = interpolate (Fin a_prev) (Fin a_curr)
                           (weight_of_diffs (dsub (Fin a_prev) (Fin b_prev)) (dsub (Fin a_curr) (Fin b_curr)))\<rparr>]
       \<and> (\<exists>cs. findCrossovers series = Inr cs
              \<and> \<lparr>CrossoverPoint.date =
                   new_Date (interpolate
                     (getTime (SeriesPoint.date (SeriesData.values (series ! i) ! (k - 1))))
                     (getTime (SeriesPoint.date (SeriesData.values (series ! i) ! k)))
                     (weight_of_diffs (dsub (Fin a_prev) (Fin b_prev)) (dsub (Fin a_curr) (Fin b_curr)))),
                  labelA = SeriesData.label (series ! i), labelB = SeriesData.label (series ! j),
                  value = interpolate (Fin a_prev) (Fin a_curr)
                            (weight_of_diffs (dsub (Fin a_prev) (Fin b_prev)) (dsub (Fin a_curr) (Fin b_curr)))\<rparr>
                \<in> set cs)
       \<and> ((a_prev - b_prev < 0 \<and> 0 < a_curr - b_curr) \<or> (0 < a_prev - b_prev \<and> a_curr - b_curr < 0))
       \<and> findCrossovers [climbing, level] =
           Inr [\<lparr>CrossoverPoint.date = TimeValue 0, labelA = ''A'', labelB = ''B'', value = Fin 2\<rparr>]"
proof -
  have len: "k < length (SeriesData.values (series ! j))"
    using assms(1,3,5) by simp
  have g: "dlt0 (dmul (dsub (Fin a_prev) (Fin b_prev)) (dsub (Fin a_curr) (Fin b_curr)))"
    unfolding guard_iff using assms(10,11) by (intro conjI)
  note step = crossingsAt_interpolated [OF len assms(6-9) g]
  have mem: "\<exists>cs. findCrossovers series = Inr cs
              \<and> \<lparr>CrossoverPoint.date =
                   new_Date (interpolate
                     (getTime (SeriesPoint.date (SeriesData.values (series ! i) ! (k - 1))))
                     (getTime (SeriesPoint.date (SeriesData.values (series ! i) ! k)))
                     (weight_of_diffs (dsub (Fin a_prev) (Fin b_prev)) (dsub (Fin a_curr) (Fin b_curr)))),
                  labelA = SeriesData.label (series ! i), labelB = SeriesData.label (series ! j),
                  value = interpolate (Fin a_prev) (Fin a_curr)
                            (weight_of_diffs (dsub (Fin a_prev) (Fin b_prev)) (dsub (Fin a_curr) (Fin b_curr)))\<rparr>
                \<in> set cs"
    using assms(1-5) step by (rule findCrossovers_member) simp
  note signs = opposite_signs_exact [OF assms(10)]
  have n: "length (SeriesData.values climbing) = 2"
    by (simp add: climbing_def series_of_def)
  have ex: "findCrossovers [climbing, level] =
           Inr [\<lparr>CrossoverPoint.date = TimeValue 0, labelA = ''A'', labelB = ''B'', value = Fin 2\<rparr>]"
    unfolding findCrossovers_two [OF n] by (rule climbing_crossing)
  from step mem signs ex show ?thesis by (intro conjI)
qed

theorem opposite_signs_crossover_witness:
  "crossingsAt tenths_up tenths_level 1 =
     Inr [\<lparr>CrossoverPoint.date = TimeValue 499, labelA = ''A'', labelB = ''B'',
           value = Fin (5404319552844595 / 4503599627370496)\<rparr>]"
proof -
  have al: "\<forall>s \<in> set [tenths_up, tenths_level]. length (SeriesData.values s) = 2"
    by (simp add: tenths_up_def tenths_level_def series_of_def)
  have v: "SeriesPoint.value (SeriesData.values ([tenths_up, tenths_level] ! 0) ! (1 - 1))
             = Some (2476979795053773 / 2251799813685248)"
    "SeriesPoint.value (SeriesData.values ([tenths_up, tenths_level] ! 0) ! 1)
             = Some (5854679515581645 / 4503599627370496)"
    "SeriesPoint.value (SeriesData.values ([tenths_up, tenths_level] ! 1) ! (1 - 1))
             = Some (5404319552844595 / 4503599627370496)"
    "SeriesPoint.value (SeriesData.values ([tenths_up, tenths_level] ! 1) ! 1)
             = Some (5404319552844595 / 4503599627370496)"
    by (simp_all add: tenths_up_def tenths_level_def series_of_def)
  have o: "opposite_signs
             (dsub (Fin (2476979795053773 / 2251799813685248)) (Fin (5404319552844595 / 4503599627370496)))
             (dsub (Fin (5854679515581645 / 4503599627370496)) (Fin (5404319552844595 / 4503599627370496)))"
    unfolding tenths_prevDiff tenths_currDiff by (simp add: opposite_signs_def)
  have p: "dmul
             (dsub (Fin (2476979795053773 / 2251799813685248)) (Fin (5404319552844595 / 4503599627370496)))
             (dsub (Fin (5854679515581645 / 4503599627370496)) (Fin (5404319552844595 / 4503599627370496)))
           \<noteq> Fin 0"
    unfolding tenths_prevDiff tenths_currDiff tenths_product by simp
  have t: "SeriesPoint.date (SeriesData.values tenths_up ! (1 - 1)) = 0"
    "SeriesPoint.date (SeriesData.values tenths_up ! 1) = 1000"
    and l: "SeriesData.label tenths_up = ''A''" "SeriesData.label tenths_level = ''B''"
    and s: "[tenths_up, tenths_level] ! 0 = tenths_up" "[tenths_up, tenths_level] ! 1 = tenths_level"
    by (simp_all add: tenths_up_def tenths_level_def series_of_def)
  have d: "new_Date (Fin (4398046511103995 / 8796093022208)) = TimeValue 499"
    by (simp add: new_Date_def truncate_ms_def)
  have one: "(0::nat) < 1" "(1::nat) < length [tenths_up, tenths_level]" "(1::nat) \<le> 1" "(1::nat) < 2"
    by simp_all
  from opposite_signs_crossover [OF al one v o p]
  have "crossingsAt ([tenths_up, tenths_level] ! 0) ([tenths_up, tenths_level] ! 1) 1 =
           Inr [\<lparr>CrossoverPoint.date =
                   new_Date (interpolate
                     (getTime (SeriesPoint.date (SeriesData.values ([tenths_up, tenths_level] ! 0) ! (1 - 1))))
                     (getTime (SeriesPoint.date (SeriesData.values ([tenths_up, tenths_level] ! 0) ! 1)))
                     (weight_of_diffs
                        (dsub (Fin (2476979795053773 / 2251799813685248)) (Fin (5404319552844595 / 4503599627370496)))
                        (dsub (Fin (5854679515581645 / 4503599627370496)) (Fin (5404319552844595 / 4503599627370496))))),
                 labelA = SeriesData.label ([tenths_up, tenths_level] ! 0),
                 labelB = SeriesData.label ([tenths_up, tenths_level] ! 1),
                 value = interpolate (Fin (2476979795053773 / 2251799813685248))
                           (Fin (5854679515581645 / 4503599627370496))
                           (weight_of_diffs
                              (dsub (Fin (2476979795053773 / 2251799813685248)) (Fin (5404319552844595 / 4503599627370496)))
                              (dsub (Fin (5854679515581645 / 4503599627370496)) (Fin (5404319552844595 / 4503599627370496))))\<rparr>]"
    by (rule conjunct1)
  then show ?thesis
    by (simp only: s t l tenths_prevDiff tenths_currDiff tenths_weight tenths_instant tenths_value d)
qed

text \<open>
  Claim C9, as stated, fails. The date of an interpolated crossover keeps whole
  milliseconds only: with samples at the times \<open>0\<close> and \<open>3\<close>, the values \<open>0, 4\<close> against
  \<open>1, 1\<close> cross after \<open>3/4\<close> of a millisecond, and the crossover is dated \<open>0\<close>, the date of
  the earlier sample. And the weight is rounded: with the values \<open>5.014, 0.696\<close> against
  \<open>4.014, 0.6960000000000001\<close> at the times \<open>0\<close> and \<open>1000\<close> the differences are \<open>1\<close> and
  \<open>-2\<^sup>-\<^sup>5\<^sup>3\<close>, their sizes add up to \<open>1\<close>, the weight is \<open>1\<close>, the crossover is dated \<open>1000\<close>,
  the date of the later sample, and its value is below both values of the first series.
\<close>

theorem interpolated_date_counterexample:
  "findCrossovers [steep, low] =
     Inr [\<lparr>CrossoverPoint.date = TimeValue 0, labelA = ''A'', labelB = ''B'', value = Fin 1\<rparr>]
   \<and> SeriesPoint.date (SeriesData.values steep ! 0) = 0
   \<and> SeriesPoint.date (SeriesData.values steep ! 1) = 3
   \<and> findCrossovers [closing, closing_above] =
     Inr [\<lparr>CrossoverPoint.date = TimeValue 1000, labelA = ''A'', labelB = ''B'',
           value = Fin (391813167581233 / 562949953421312)\<rparr>]
   \<and> SeriesPoint.date (SeriesData.values closing ! 0) = 0
   \<and> SeriesPoint.date (SeriesData.values closing ! 1) = 1000
   \<and> map SeriesPoint.value (SeriesData.values closing)
       = [Some (5645262132908917 / 1125899906842624), Some (3134505340649865 / 4503599627370496)]
   \<and> map SeriesPoint.value (SeriesData.values closing_above)
       = [Some (4519362226066293 / 1125899906842624), Some (6269010681299731 / 9007199254740992)]
   \<and> weight_of_diffs
        (dsub (Fin (5645262132908917 / 1125899906842624)) (Fin (4519362226066293 / 1125899906842624)))
        (dsub (Fin (3134505340649865 / 4503599627370496)) (Fin (6269010681299731 / 9007199254740992)))
       = Fin 1
   \<and> (391813167581233 / 562949953421312 :: real)
       < min (5645262132908917 / 1125899906842624) (3134505340649865 / 4503599627370496)"
proof -
  have n: "length (SeriesData.values steep) = 2" "length (SeriesData.values closing) = 2"
    by (simp_all add: steep_def closing_def series_of_def)
  have a: "findCrossovers [steep, low] =
     Inr [\<lparr>CrossoverPoint.date = TimeValue 0, labelA = ''A'', labelB = ''B'', value = Fin 1\<rparr>]"
    unfolding findCrossovers_two [OF n(1)] by (rule steep_crossing)
  have b: "SeriesPoint.date (SeriesData.values steep ! 0) = 0"
    "SeriesPoint.date (SeriesData.values steep ! 1) = 3"
    by (simp_all add: steep_def series_of_def)
  have c: "findCrossovers [closing, closing_above] =
     Inr [\<lparr>CrossoverPoint.date = TimeValue 1000, labelA = ''A'', labelB = ''B'',
           value = Fin (391813167581233 / 562949953421312)\<rparr>]"
    unfolding findCrossovers_two [OF n(2)] by (rule closing_crossing)
  have d: "SeriesPoint.date (SeriesData.values closing ! 0) = 0"
    "SeriesPoint.date (SeriesData.values closing ! 1) = 1000"
    "map SeriesPoint.value (SeriesData.values closing)
       = [Some (5645262132908917 / 1125899906842624), Some (3134505340649865 / 4503599627370496)]"
    "map SeriesPoint.value (SeriesData.values closing_above)
       = [Some (4519362226066293 / 1125899906842624), Some (6269010681299731 / 9007199254740992)]"
    by (simp_all add: closing_def closing_above_def series_of_def)
  have e: "weight_of_diffs
        (dsub (Fin (5645262132908917 / 1125899906842624)) (Fin (4519362226066293 / 1125899906842624)))
        (dsub (Fin (3134505340649865 / 4503599627370496)) (Fin (6269010681299731 / 9007199254740992)))
       = Fin 1"
    by (simp only: closing_prevDiff closing_currDiff closing_weight)
  have f: "(391813167581233 / 562949953421312 :: real)
       < min (5645262132908917 / 1125899906842624) (3134505340649865 / 4503599627370496)"
    by simp
  from a b c d e f show ?thesis by (intro conjI)
qed

text \<open>
  Claim C9, amended. Take a round \<open>k\<close> with \<open>time(k - 1) < time(k)\<close>, both dates within the
  range of a \<^verbatim>\<open>Date\<close> and at most \<open>2\<^sup>5\<^sup>3\<close> ms apart, and an earlier difference that is
  finite and not zero. Every crossover recorded in that round is interpolated with a
  weight \<open>|diff(k - 1)| / (|diff(k - 1)| + |diff(k)|)\<close> that is a number in the closed
  interval from \<open>0\<close> to \<open>1\<close>, whose denominator is neither zero nor \<^verbatim>\<open>NaN\<close>, and its date
  is a valid date in the closed interval from \<open>time(k - 1)\<close> to \<open>time(k)\<close>.
\<close>

theorem interpolated_crossover_bounds:
  assumes "1 \<le> k" and "k < length (SeriesData.values a)" and "k < length (SeriesData.values b)"
    and "SeriesPoint.value (SeriesData.values a ! (k - 1)) = Some a_prev"
    and "SeriesPoint.value (SeriesData.values a ! k) = Some a_curr"
    and "SeriesPoint.value (SeriesData.values b ! (k - 1)) = Some b_prev"
    and "SeriesPoint.value (SeriesData.values b ! k) = Some b_curr"
    and "dsub (Fin a_prev) (Fin b_prev) = Fin p" and "p \<noteq> 0"
    and "crossingsAt a b k = Inr [c]"
    and "SeriesPoint.date (SeriesData.values a ! (k - 1)) < SeriesPoint.date (SeriesData.values a ! k)"
    and "SeriesPoint.date (SeriesData.values a ! k) - SeriesPoint.date (SeriesData.values a ! (k - 1)) \<le> 2 ^ 53"
    and "\<bar>SeriesPoint.date (SeriesData.values a ! (k - 1))\<bar> \<le> 8640000000000000"
    and "\<bar>SeriesPoint.date (SeriesData.values a ! k)\<bar> \<le> 8640000000000000"
  shows "dadd (dabs (Fin p)) (dabs (dsub (Fin a_curr) (Fin b_curr))) \<noteq> Fin 0
       \<and> dadd (dabs (Fin p)) (dabs (dsub (Fin a_curr) (Fin b_curr))) \<noteq> NotANumber
       \<and> (\<exists>r. weight_of_diffs (Fin p) (dsub (Fin a_curr) (Fin b_curr)) = Fin r \<and> 0 \<le> r \<and> r \<le> 1)
       \<and> (\<exists>t. CrossoverPoint.date c = TimeValue t
              \<and> SeriesPoint.date (SeriesData.values a ! (k - 1)) \<le> t
              \<and> t \<le> SeriesPoint.date (SeriesData.values a ! k))"
proof -
  let ?dc = "dsub (Fin a_curr) (Fin b_curr)"
  let ?tp = "SeriesPoint.date (SeriesData.values a ! (k - 1))"
  let ?tc = "SeriesPoint.date (SeriesData.values a ! k)"
  have nz: "Fin p \<noteq> Fin 0" using assms(9) by simp
  have g: "dlt0 (dmul (Fin p) ?dc)"
  proof (rule ccontr)
    assume "\<not> dlt0 (dmul (Fin p) ?dc)"
    then have "crossingsAt a b k = Inr []"
      unfolding crossingsAt_present [OF assms(3-7)] assms(8) using nz by simp
    with assms(10) show False by simp
  qed
  have c: "c = \<lparr>CrossoverPoint.date =
                  new_Date (interpolate (getTime ?tp) (getTime ?tc) (weight_of_diffs (Fin p) ?dc)),
                labelA = SeriesData.label a, labelB = SeriesData.label b,
                value = interpolate (Fin a_prev) (Fin a_curr) (weight_of_diffs (Fin p) ?dc)\<rparr>"
    using assms(10) unfolding crossingsAt_present [OF assms(3-7)] assms(8) using nz g by simp
  have dbl: "is_double p"
    using assms(8) unfolding dsub_Fin by (rule round_double_is_double)
  have nn: "?dc \<noteq> NotANumber"
    unfolding dsub_Fin by (rule round_double_never_nan)
  from sum_of_sizes [OF dbl assms(9) nn]
  have den: "dadd (dabs (Fin p)) (dabs ?dc) \<noteq> Fin 0 \<and> dadd (dabs (Fin p)) (dabs ?dc) \<noteq> NotANumber"
    using assms(9) by auto
  obtain r where r: "weight_of_diffs (Fin p) ?dc = Fin r" "0 \<le> r" "r \<le> 1"
    using weight_bounds [OF dbl assms(9) nn] by blast
  obtain t where t: "new_Date (interpolate (getTime ?tp) (getTime ?tc) (Fin r)) = TimeValue t"
      "?tp \<le> t" "t \<le> ?tc"
    using date_bounds [OF assms(11-14) r(2,3)] by blast
  have "CrossoverPoint.date c = TimeValue t" unfolding c r(1) using t(1) by simp
  with t(2,3) have dt: "\<exists>t. CrossoverPoint.date c = TimeValue t \<and> ?tp \<le> t \<and> t \<le> ?tc" by blast
  from r have w: "\<exists>r. weight_of_diffs (Fin p) ?dc = Fin r \<and> 0 \<le> r \<and> r \<le> 1" by blast
  from den w dt show ?thesis by blast
qed

theorem interpolated_crossover_bounds_witness:
  "crossingsAt climbing_slow level_slow 1 =
     Inr [\<lparr>CrossoverPoint.date = TimeValue 500, labelA = ''A'', labelB = ''B'', value = Fin 2\<rparr>]
   \<and> SeriesPoint.date (SeriesData.values climbing_slow ! (1 - 1)) = 0
   \<and> SeriesPoint.date (SeriesData.values climbing_slow ! 1) = 1000
   \<and> weight_of_diffs (Fin (- 1)) (dsub (Fin 3) (Fin 2)) = Fin (1 / 2)
   \<and> dadd (dabs (Fin (- 1))) (dabs (dsub (Fin 3) (Fin 2))) \<noteq> Fin 0
   \<and> dadd (dabs (Fin (- 1))) (dabs (dsub (Fin 3) (Fin 2))) \<noteq> NotANumber
   \<and> (\<exists>r. weight_of_diffs (Fin (- 1)) (dsub (Fin 3) (Fin 2)) = Fin r \<and> 0 \<le> r \<and> r \<le> 1)
   \<and> (\<exists>t. CrossoverPoint.date
             \<lparr>CrossoverPoint.date = TimeValue 500, labelA = ''A'', labelB = ''B'', value = Fin 2\<rparr>
             = TimeValue t
          \<and> SeriesPoint.date (SeriesData.values climbing_slow ! (1 - 1)) \<le> t
          \<and> t \<le> SeriesPoint.date (SeriesData.values climbing_slow ! 1))"
proof -
  have v: "SeriesPoint.value (SeriesData.values climbing_slow ! (1 - 1)) = Some 1"
    "SeriesPoint.value (SeriesData.values climbing_slow ! 1) = Some 3"
    "SeriesPoint.value (SeriesData.values level_slow ! (1 - 1)) = Some 2"
    "SeriesPoint.value (SeriesData.values level_slow ! 1) = Some 2"
    by (simp_all add: climbing_slow_def level_slow_def series_of_def)
  have l: "1 < length (SeriesData.values climbing_slow)" "1 < length (SeriesData.values level_slow)"
    by (simp_all add: climbing_slow_def level_slow_def series_of_def)
  have nz: "(- 1::real) \<noteq> 0" by simp
  have t: "SeriesPoint.date (SeriesData.values climbing_slow ! (1 - 1)) = 0"
    "SeriesPoint.date (SeriesData.values climbing_slow ! 1) = 1000"
    by (simp_all add: climbing_slow_def series_of_def)
  have d: "SeriesPoint.date (SeriesData.values climbing_slow ! (1 - 1))
             < SeriesPoint.date (SeriesData.values climbing_slow ! 1)"
    "SeriesPoint.date (SeriesData.values climbing_slow ! 1)
       - SeriesPoint.date (SeriesData.values climbing_slow ! (1 - 1)) \<le> 2 ^ 53"
    "\<bar>SeriesPoint.date (SeriesData.values climbing_slow ! (1 - 1))\<bar> \<le> 8640000000000000"
    "\<bar>SeriesPoint.date (SeriesData.values climbing_slow ! 1)\<bar> \<le> 8640000000000000"
    unfolding t by simp_all
  have one: "(1::nat) \<le> 1" by simp
  have w: "weight_of_diffs (Fin (- 1)) (dsub (Fin 3) (Fin 2)) = Fin (1 / 2)"
    by (simp only: climbing_slow_currDiff climbing_slow_weight)
  note b = interpolated_crossover_bounds
             [OF one l v climbing_slow_prevDiff nz climbing_slow_crossing d]
  from climbing_slow_crossing t w b show ?thesis by (intro conjI) blast+
qed

section \<open>Verification: shares of a bucket\<close>

lemma Map_get_Map_set: "Map_get (Map_set m k v) k' = (if k' = k then Some v else Map_get m k')"
  by (induction m) (auto simp: Map_get_def)

lemma Map_keys_Map_set_present: "Map_get m k = Some x \<Longrightarrow> Map_keys (Map_set m k v) = Map_keys m"
  by (induction m) (auto simp: Map_get_def Map_keys_def split: if_splits)

lemma zero_shares_get:
  "Map_get (foldl (\<lambda>sh label'. Map_set sh (keyForLabel label') (Num 0)) sh ls) k
     = (if k \<in> keyForLabel ` set ls then Some (Num 0) else Map_get sh k)"
  by (induction ls arbitrary: sh) (auto simp: Map_get_Map_set)

lemma toShares_total: "PointShare.total (toShares p) = PointShare.total p"
  by (simp add: toShares_def Let_def)

lemma toShares_zero:
  assumes "PointShare.total p = 0" and "l \<in> set longrun_SERIES_LABELS"
  shows "Map_get (PointShare.shares (toShares p)) (keyForLabel l) = Some (Num 0)"
  using assms by (simp add: toShares_def zero_shares_get)

lemma buildSeries_points:
  "p \<in> set (snd (buildSeries records labels)) \<Longrightarrow> \<exists>q. p = toShares q"
  by (auto simp: buildSeries_def Let_def)

lemma longrun_zero_total:
  assumes "p \<in> set (snd (buildSeries records labels))" and "PointShare.total p = 0"
    and "l \<in> set longrun_SERIES_LABELS"
  shows "Map_get (PointShare.shares p) (keyForLabel l) = Some (Num 0)"
proof -
  obtain q where q: "p = toShares q" using buildSeries_points [OF assms(1)] by blast
  then have "PointShare.total q = 0" using assms(2) by (simp add: toShares_total)
  then show ?thesis unfolding q using assms(3) by (rule toShares_zero)
qed

lemma cellsOfYear_year: "cell \<in> set (cellsOfYear byYear n y) \<Longrightarrow> HeatmapCell.year cell = y"
  by (auto simp: cellsOfYear_def Let_def)

lemma cellsOfYear_zero_total:
  assumes "cell \<in> set (cellsOfYear byYear True y)"
    and "yearTotal (case Map_get byYear y of Some m \<Rightarrow> m | None \<Rightarrow> []) = 0"
  shows "HeatmapCell.value cell = None"
  using assms by (auto simp: cellsOfYear_def Let_def split: option.splits)

lemma seasonality_zero_total:
  assumes "cell \<in> set (prepareCells records g s True)"
    and "yearTotal (case Map_get (collectByYear records g s) (HeatmapCell.year cell) of
                      Some m \<Rightarrow> m | None \<Rightarrow> []) = 0"
  shows "HeatmapCell.value cell = None"
proof -
  obtain y where y: "cell \<in> set (cellsOfYear (collectByYear records g s) True y)"
    using assms(1) by (auto simp: prepareCells_def Let_def)
  then have "HeatmapCell.year cell = y" by (rule cellsOfYear_year)
  with assms(2) y show ?thesis using cellsOfYear_zero_total by blast
qed

lemma category_keys_eval:
  "category_keys =
     [''beer-containing-not-more-than-1-150-alcohol'',
      ''beer-containing-between-1-151-and-2-500-alc'',
      ''beer-containing-between-2-501-and-4-350-alc'',
      ''beer-containing-between-4-351-and-5-000-alc'',
      ''beer-containing-more-than-5-00-alcohol'']"
  by code_simp

lemma distinct_category_keys: "distinct category_keys"
  unfolding category_keys_eval by simp

lemma fromEntries_distinct:
  assumes "distinct (map fst es)"
  shows "fromEntries es = es"
proof -
  have gen: "distinct (map fst (acc @ es)) \<Longrightarrow> foldl (\<lambda>obj (k, v). Map_set obj k v) acc es = acc @ es" for acc
  proof (induction es arbitrary: acc)
    case Nil
    show ?case by simp
  next
    case (Cons e es)
    obtain k v where e: "e = (k, v)" by (cases e)
    have "k \<notin> fst ` set acc" using Cons.prems e by auto
    then have "Map_set acc k v = acc @ [(k, v)]"
      by (induction acc) auto
    moreover have "distinct (map fst ((acc @ [(k, v)]) @ es))" using Cons.prems e by simp
    ultimately show ?case using Cons.IH [of "acc @ [(k, v)]"] e by simp
  qed
  have "foldl (\<lambda>obj (k, v). Map_set obj k v) [] es = [] @ es"
    by (rule gen) (simp add: assms)
  then show ?thesis by (simp add: fromEntries_def)
qed

lemma initial_values:
  "fromEntries (map (\<lambda>l. (keyForLabel l, 0::real)) CATEGORY_LABELS)
     = map (\<lambda>l. (keyForLabel l, 0)) CATEGORY_LABELS"
proof (rule fromEntries_distinct)
  have "map fst (map (\<lambda>l. (keyForLabel l, 0::real)) CATEGORY_LABELS) = category_keys"
    by (simp add: category_keys_def comp_def)
  then show "distinct (map fst (map (\<lambda>l. (keyForLabel l, 0::real)) CATEGORY_LABELS))"
    using distinct_category_keys by simp
qed

lemma initial_bar_ok:
  "bar_ok nn \<lparr>AggregatedBar.key = k, label = l, total = 0,
           values = fromEntries (map (\<lambda>l. (keyForLabel l, 0)) CATEGORY_LABELS)\<rparr>"
  unfolding initial_values
  by (simp add: bar_ok_def Map_keys_def Map_values_def category_keys_def comp_def list_all_iff
        sum_list_0)

lemma Map_get_in_keys: "Map_get m k \<noteq> None \<longleftrightarrow> k \<in> set (Map_keys m)"
  by (simp add: Map_get_def Map_keys_def map_of_eq_None_iff)

lemma sum_Map_set:
  "Map_get m k = Some x \<Longrightarrow>
     sum_list (Map_values (Map_set m k y)) = sum_list (Map_values m) - x + (y::real)"
  by (induction m) (auto simp: Map_get_def Map_values_def split: if_splits)

lemma set_Map_set: "set (Map_set m k y) \<subseteq> insert (k, y) (set m)"
  by (induction m) (auto split: if_splits)

lemma set_values_Map_set:
  "set (Map_values (Map_set m k y)) \<subseteq> insert y (set (Map_values m))"
proof -
  have "snd ` set (Map_set m k y) \<subseteq> snd ` insert (k, y) (set m)"
    using set_Map_set by (rule image_mono)
  then show ?thesis by (simp add: Map_values_def)
qed

lemma addAt_ok:
  assumes "bar_ok nn bar" and "nn \<longrightarrow> 0 \<le> v" and "c \<in> set CATEGORY_LABELS"
  shows "bar_ok nn (bar\<lparr>AggregatedBar.total := AggregatedBar.total bar + v,
                    AggregatedBar.values := addAt (AggregatedBar.values bar) (keyForLabel c) v\<rparr>)"
proof -
  let ?vs = "AggregatedBar.values bar"
  have "keyForLabel c \<in> set (Map_keys ?vs)"
    using assms(1,3) by (simp add: bar_ok_def category_keys_def)
  then obtain x where x: "Map_get ?vs (keyForLabel c) = Some x"
    using Map_get_in_keys [of ?vs "keyForLabel c"] by auto
  have x0: "0 \<le> x" if nn
  proof -
    have "(keyForLabel c, x) \<in> set ?vs" using x by (simp add: Map_get_def map_of_SomeD)
    then have "x \<in> set (Map_values ?vs)" by (force simp: Map_values_def)
    then show ?thesis using assms(1) that by (simp add: bar_ok_def list_all_iff)
  qed
  have a: "addAt ?vs (keyForLabel c) v = Map_set ?vs (keyForLabel c) (x + v)"
    using x by (simp add: addAt_def)
  have k: "Map_keys (Map_set ?vs (keyForLabel c) (x + v)) = category_keys"
    using Map_keys_Map_set_present [OF x] assms(1) by (simp add: bar_ok_def)
  have s: "sum_list (Map_values (Map_set ?vs (keyForLabel c) (x + v))) = AggregatedBar.total bar + v"
    using sum_Map_set [OF x, of "x + v"] assms(1) by (simp add: bar_ok_def)
  have n: "list_all (\<lambda>v. 0 \<le> v) (Map_values (Map_set ?vs (keyForLabel c) (x + v)))" if nn
    using that set_values_Map_set [of ?vs "keyForLabel c" "x + v"] assms(1,2) x0
    by (auto simp: bar_ok_def list_all_iff)
  show ?thesis
    unfolding a using k s n by (simp add: bar_ok_def)
qed

lemma set_Map_values_Map_set:
  "b \<in> set (Map_values (Map_set m k v)) \<Longrightarrow> b = v \<or> b \<in> set (Map_values m)"
  using set_values_Map_set [of m k v] by blast

lemma Map_get_in_values: "Map_get m k = Some b \<Longrightarrow> b \<in> set (Map_values m)"
  by (force simp: Map_get_def Map_values_def dest: map_of_SomeD)

lemma addToBar_skip:
  assumes "DataRecord.value r = None
           \<or> DataRecord.seriesLabel r \<notin> set CATEGORY_LABELS
           \<or> keyForLabel (DataRecord.seriesLabel r) \<notin> act"
  shows "addToBar d act bars r = bars"
  using assms by (auto simp: addToBar_def Let_def split: option.splits)

lemma addToBar_step:
  assumes "DataRecord.value r = Some v"
    and "DataRecord.seriesLabel r \<in> set CATEGORY_LABELS"
    and "keyForLabel (DataRecord.seriesLabel r) \<in> act"
  shows "addToBar d act bars r =
           (case Map_get (withBar d bars r) (bucketKey d (DataRecord.year r)) of
              None \<Rightarrow> withBar d bars r
            | Some bar \<Rightarrow>
                Map_set (withBar d bars r) (bucketKey d (DataRecord.year r))
                  (bar\<lparr>AggregatedBar.total := AggregatedBar.total bar + v,
                       AggregatedBar.values := addAt (AggregatedBar.values bar)
                                                 (keyForLabel (DataRecord.seriesLabel r)) v\<rparr>))"
  using assms unfolding addToBar_def withBar_def Let_def by simp

lemma withBar_ok:
  assumes "\<forall>b \<in> set (Map_values bars). bar_ok nn b"
  shows "\<forall>b \<in> set (Map_values (withBar d bars r)). bar_ok nn b"
proof (cases "Map_has bars (bucketKey d (DataRecord.year r))")
  case True
  then have "withBar d bars r = bars" by (simp add: withBar_def)
  then show ?thesis using assms by simp
next
  case False
  then have b1: "withBar d bars r = Map_set bars (bucketKey d (DataRecord.year r))
          \<lparr>AggregatedBar.key = bucketKey d (DataRecord.year r),
            label = bucketLabel d (DataRecord.year r), total = 0,
            values = fromEntries (map (\<lambda>l. (keyForLabel l, 0)) CATEGORY_LABELS)\<rparr>"
    by (simp add: withBar_def)
  show ?thesis
  proof
    fix b assume "b \<in> set (Map_values (withBar d bars r))"
    then have "b = \<lparr>AggregatedBar.key = bucketKey d (DataRecord.year r),
            label = bucketLabel d (DataRecord.year r), total = 0,
            values = fromEntries (map (\<lambda>l. (keyForLabel l, 0)) CATEGORY_LABELS)\<rparr>
            \<or> b \<in> set (Map_values bars)"
      unfolding b1 by (rule set_Map_values_Map_set)
    then show "bar_ok nn b" using assms initial_bar_ok by blast
  qed
qed

lemma addToBar_ok:
  assumes "\<forall>b \<in> set (Map_values bars). bar_ok nn b"
    and "nn \<longrightarrow> (case DataRecord.value r of None \<Rightarrow> True | Some v \<Rightarrow> 0 \<le> v)"
  shows "\<forall>b \<in> set (Map_values (addToBar d act bars r)). bar_ok nn b"
proof (cases "DataRecord.value r = None
           \<or> DataRecord.seriesLabel r \<notin> set CATEGORY_LABELS
           \<or> keyForLabel (DataRecord.seriesLabel r) \<notin> act")
  case True
  then have "addToBar d act bars r = bars" by (rule addToBar_skip)
  then show ?thesis using assms(1) by simp
next
  case False
  then have c: "DataRecord.seriesLabel r \<in> set CATEGORY_LABELS"
    and a: "keyForLabel (DataRecord.seriesLabel r) \<in> act"
    and "DataRecord.value r \<noteq> None"
    by simp_all
  then obtain v where v: "DataRecord.value r = Some v"
    by (cases "DataRecord.value r") simp_all
  have v0: "nn \<longrightarrow> 0 \<le> v" using assms(2) v by simp
  note step = addToBar_step [OF v c a, of d bars]
  note ok1 = withBar_ok [OF assms(1), of d r]
  show ?thesis
  proof (cases "Map_get (withBar d bars r) (bucketKey d (DataRecord.year r))")
    case None
    then have "addToBar d act bars r = withBar d bars r" unfolding step by simp
    then show ?thesis using ok1 by simp
  next
    case (Some bar)
    then have "bar \<in> set (Map_values (withBar d bars r))" by (rule Map_get_in_values)
    with ok1 have "bar_ok nn bar" by (rule bspec)
    then have new: "bar_ok nn (bar\<lparr>AggregatedBar.total := AggregatedBar.total bar + v,
                  AggregatedBar.values := addAt (AggregatedBar.values bar) (keyForLabel (DataRecord.seriesLabel r)) v\<rparr>)"
      using v0 c by (rule addAt_ok)
    have s2: "addToBar d act bars r = Map_set (withBar d bars r) (bucketKey d (DataRecord.year r))
             (bar\<lparr>AggregatedBar.total := AggregatedBar.total bar + v,
                  AggregatedBar.values := addAt (AggregatedBar.values bar) (keyForLabel (DataRecord.seriesLabel r)) v\<rparr>)"
      unfolding step Some by simp
    show ?thesis
    proof
      fix b assume "b \<in> set (Map_values (addToBar d act bars r))"
      then have "b = bar\<lparr>AggregatedBar.total := AggregatedBar.total bar + v,
                  AggregatedBar.values := addAt (AggregatedBar.values bar) (keyForLabel (DataRecord.seriesLabel r)) v\<rparr>
                \<or> b \<in> set (Map_values (withBar d bars r))"
        unfolding s2 by (rule set_Map_values_Map_set)
      then show "bar_ok nn b"
      proof
        assume "b = bar\<lparr>AggregatedBar.total := AggregatedBar.total bar + v,
                  AggregatedBar.values := addAt (AggregatedBar.values bar) (keyForLabel (DataRecord.seriesLabel r)) v\<rparr>"
        then show ?thesis using new by (simp only:)
      next
        assume "b \<in> set (Map_values (withBar d bars r))"
        then show ?thesis using ok1 by (rule_tac bspec)
      qed
    qed
  qed
qed

lemma foldl_addToBar_ok:
  assumes "\<forall>b \<in> set (Map_values bars). bar_ok nn b" and "nn \<longrightarrow> non_negative rs"
  shows "\<forall>b \<in> set (Map_values (foldl (addToBar d act) bars rs)). bar_ok nn b"
  using assms
proof (induction rs arbitrary: bars)
  case Nil
  then show ?case by simp
next
  case (Cons r rs)
  have "\<forall>b \<in> set (Map_values (addToBar d act bars r)). bar_ok nn b"
    using Cons.prems by (intro addToBar_ok) (simp_all add: non_negative_def)
  moreover have "nn \<longrightarrow> non_negative rs" using Cons.prems(2) by (simp add: non_negative_def)
  ultimately show ?case using Cons.IH by simp
qed

lemma set_insort_by: "set (insort_by le x xs) = insert x (set xs)"
  by (induction xs) auto

lemma set_sort_by: "set (sort_by le xs) = set xs"
  unfolding sort_by_def by (induction xs) (auto simp: set_insort_by)

lemma non_negative_filter: "non_negative rs \<Longrightarrow> non_negative (filter P rs)"
  by (simp add: non_negative_def list_all_iff)

lemma aggregate_unshared_ok:
  assumes "nn \<longrightarrow> non_negative records" and "bar \<in> set (aggregateRecords le records d False act)"
  shows "bar_ok nn bar"
proof -
  let ?f = "filter (\<lambda>record. DataRecord.groupLabel record = beerstrength_GROUP_LABEL) records"
  have "\<forall>b \<in> set (Map_values (foldl (addToBar d act) [] ?f)). bar_ok nn b"
    using assms(1) by (intro foldl_addToBar_ok) (simp_all add: Map_values_def non_negative_filter)
  then show ?thesis
    using assms(2) by (simp add: aggregateRecords_def Let_def set_sort_by)
qed

lemma aggregate_shared: 
  "aggregateRecords le records d True act = map toShare (aggregateRecords le records d False act)"
  by (simp add: aggregateRecords_def Let_def)

lemma toShare_zero_total:
  assumes "bar_ok True bar" and "AggregatedBar.total bar = 0"
  shows "list_all (\<lambda>(k, v). v = 0) (AggregatedBar.values (toShare bar))"
proof -
  have "\<forall>v \<in> set (Map_values (AggregatedBar.values bar)). v = 0"
    using assms sum_list_nonneg_eq_0_iff [of "Map_values (AggregatedBar.values bar)"]
    by (simp add: bar_ok_def list_all_iff)
  then show ?thesis
    by (auto simp: toShare_def Map_values_def list_all_iff)
qed

lemma toShare_keys:
  "Map_keys (AggregatedBar.values (toShare bar)) = Map_keys (AggregatedBar.values bar)"
  by (simp add: toShare_def Map_keys_def Let_def comp_def case_prod_unfold)

lemma Map_set_Map_set: "Map_set (Map_set m k a) k b = Map_set m k b"
  by (induction m) auto

lemma map_Map_set:
  "map (\<lambda>(k, v). (k, f v)) (Map_set m k x) = Map_set (map (\<lambda>(k, v). (k, f v)) m) k (f x)"
  by (induction m) auto

lemma initial_get:
  assumes "c \<in> set CATEGORY_LABELS"
  shows "Map_get (map (\<lambda>l. (keyForLabel l, 0::real)) CATEGORY_LABELS) (keyForLabel c) = Some 0"
proof -
  have "map_of (map (\<lambda>l. (keyForLabel l, 0::real)) CATEGORY_LABELS) (keyForLabel c) = Some 0"
    using assms by (intro map_of_is_SomeI) (auto simp: comp_def distinct_category_keys [unfolded category_keys_def])
  then show ?thesis by (simp add: Map_get_def)
qed

lemma first_bar:
  assumes "DataRecord.value r = Some v" and "DataRecord.seriesLabel r = c"
    and "c \<in> set CATEGORY_LABELS" and "DataRecord.year r = y"
  shows "addToBar d {keyForLabel c} [] r =
           [(bucketKey d y,
             \<lparr>AggregatedBar.key = bucketKey d y, label = bucketLabel d y, total = v,
              values = Map_set (map (\<lambda>l. (keyForLabel l, 0)) CATEGORY_LABELS) (keyForLabel c) v\<rparr>)]"
proof -
  have a: "keyForLabel (DataRecord.seriesLabel r) \<in> {keyForLabel c}" using assms(2) by simp
  have c: "DataRecord.seriesLabel r \<in> set CATEGORY_LABELS" using assms(2,3) by simp
  have w: "withBar d [] r = [(bucketKey d y,
             \<lparr>AggregatedBar.key = bucketKey d y, label = bucketLabel d y, total = 0,
              values = map (\<lambda>l. (keyForLabel l, 0)) CATEGORY_LABELS\<rparr>)]"
    using assms(4) by (simp add: withBar_def Map_has_def initial_values)
  show ?thesis
    unfolding addToBar_step [OF assms(1) c a] w
    using assms(2,4) initial_get [OF assms(3)]
    by (simp add: Map_get_def addAt_def)
qed

lemma next_bar:
  assumes "DataRecord.value r = Some v" and "DataRecord.seriesLabel r = c"
    and "c \<in> set CATEGORY_LABELS" and "DataRecord.year r = y"
  shows "addToBar d {keyForLabel c}
           [(bucketKey d y,
             \<lparr>AggregatedBar.key = k, label = l, total = t,
              values = Map_set (map (\<lambda>l. (keyForLabel l, 0)) CATEGORY_LABELS) (keyForLabel c) x\<rparr>)] r =
           [(bucketKey d y,
             \<lparr>AggregatedBar.key = k, label = l, total = t + v,
              values = Map_set (map (\<lambda>l. (keyForLabel l, 0)) CATEGORY_LABELS) (keyForLabel c) (x + v)\<rparr>)]"
proof -
  have a: "keyForLabel (DataRecord.seriesLabel r) \<in> {keyForLabel c}" using assms(2) by simp
  have c: "DataRecord.seriesLabel r \<in> set CATEGORY_LABELS" using assms(2,3) by simp
  have w: "withBar d [(bucketKey d y, b)] r = [(bucketKey d y, b)]" for b
    using assms(4) by (simp add: withBar_def Map_has_def)
  show ?thesis
    unfolding addToBar_step [OF assms(1) c a] w
    using assms(2,4)
    by (simp add: Map_get_def [of "[_]"] addAt_def Map_get_Map_set Map_set_Map_set)
qed

lemma four_quarters_bars:
  assumes "c \<in> set CATEGORY_LABELS"
  shows "foldl (addToBar d {keyForLabel c}) [] (four_quarters g c y) =
           [(bucketKey d y,
             \<lparr>AggregatedBar.key = bucketKey d y, label = bucketLabel d y, total = 100,
              values = Map_set (map (\<lambda>l. (keyForLabel l, 0)) CATEGORY_LABELS) (keyForLabel c) 100\<rparr>)]"
proof -
  have r: "DataRecord.value (record_of g c y m v) = v" "DataRecord.seriesLabel (record_of g c y m v) = c"
    "DataRecord.year (record_of g c y m v) = y" for m v
    by (simp_all add: record_of_def)
  show ?thesis
    unfolding four_quarters_def foldl.simps
    by (simp only: first_bar [OF r(1,2) assms r(3)] next_bar [OF r(1,2) assms r(3)]) simp
qed

lemma sort_by_single: "sort_by le [x] = [x]"
  by (simp add: sort_by_def)

lemma four_quarters_group: "filter (\<lambda>record. DataRecord.groupLabel record = g) (four_quarters g c y) = four_quarters g c y"
  by (simp add: four_quarters_def record_of_def)

lemma four_quarters_unshared:
  assumes "c \<in> set CATEGORY_LABELS"
  shows "aggregateRecords le (four_quarters ''Litres of Beverage'' c y) d False {keyForLabel c} =
           [\<lparr>AggregatedBar.key = bucketKey d y, label = bucketLabel d y, total = 100,
             values = Map_set (map (\<lambda>l. (keyForLabel l, 0)) CATEGORY_LABELS) (keyForLabel c) 100\<rparr>]"
  unfolding aggregateRecords_def Let_def beerstrength_GROUP_LABEL_def four_quarters_group
    four_quarters_bars [OF assms]
  by (simp add: Map_values_def sort_by_single)

lemma four_quarters_shared:
  assumes "c \<in> set CATEGORY_LABELS"
  shows "aggregateRecords le (four_quarters ''Litres of Beverage'' c y) d True {keyForLabel c} =
           [\<lparr>AggregatedBar.key = bucketKey d y, label = bucketLabel d y, total = 1,
             values = Map_set (map (\<lambda>l. (keyForLabel l, 0)) CATEGORY_LABELS) (keyForLabel c) 1\<rparr>]"
  unfolding aggregate_shared four_quarters_unshared [OF assms]
  by (simp add: toShare_def map_Map_set comp_def)

text \<open>
  Claim C1, as stated, fails for the seasonality normalization: when the total of a year
  is zero, the share of every cell of that year is absent, also where the cell has a
  value. One record of value \<open>0\<close> in March 2000 gives a year total of \<open>0\<close> and four cells
  without a value.
\<close>

theorem seasonality_zero_total_counterexample:
  "collectByYear (zero_quarter ''Litres of Beverage'' ''Beer'') ''Litres of Beverage'' ''Beer''
     = [(2000, [(3, 0)])]
   \<and> yearTotal [(3, 0)] = 0
   \<and> prepareCells (zero_quarter ''Litres of Beverage'' ''Beer'') ''Litres of Beverage'' ''Beer'' True
     = [\<lparr>HeatmapCell.year = 2000, month = 3, value = None\<rparr>,
        \<lparr>HeatmapCell.year = 2000, month = 6, value = None\<rparr>,
        \<lparr>HeatmapCell.year = 2000, month = 9, value = None\<rparr>,
        \<lparr>HeatmapCell.year = 2000, month = 12, value = None\<rparr>]
   \<and> HeatmapCell.value (hd (prepareCells (zero_quarter ''Litres of Beverage'' ''Beer'')
                               ''Litres of Beverage'' ''Beer'' True)) \<noteq> Some 0"
proof -
  have a: "collectByYear (zero_quarter ''Litres of Beverage'' ''Beer'') ''Litres of Beverage'' ''Beer''
     = [(2000, [(3, 0)])]"
    by code_simp
  have b: "yearTotal [(3, 0)] = 0"
    by (simp add: yearTotal_def Map_values_def)
  have c: "prepareCells (zero_quarter ''Litres of Beverage'' ''Beer'') ''Litres of Beverage'' ''Beer'' True
     = [\<lparr>HeatmapCell.year = 2000, month = 3, value = None\<rparr>,
        \<lparr>HeatmapCell.year = 2000, month = 6, value = None\<rparr>,
        \<lparr>HeatmapCell.year = 2000, month = 9, value = None\<rparr>,
        \<lparr>HeatmapCell.year = 2000, month = 12, value = None\<rparr>]"
    by code_simp
  show ?thesis unfolding a b c by simp
qed

text \<open>
  Claim C1, amended. When the total of a bucket is zero: in the long-run pivot the share
  of every series of \<^verbatim>\<open>SERIES_LABELS\<close> at that point is the number \<open>0\<close>; in the
  beer-strength share aggregation, which is the aggregation without shares followed by
  the share step, every category of the bucket has a share, and it is the number \<open>0\<close>
  when no record has a negative value; in the seasonality normalization the share of
  every cell of that year is absent.
\<close>

theorem zero_total_shares:
  "(\<forall>p \<in> set (snd (buildSeries records1 labels)).
      PointShare.total p = 0 \<longrightarrow>
      (\<forall>l \<in> set longrun_SERIES_LABELS. Map_get (PointShare.shares p) (keyForLabel l) = Some (Num 0)))
   \<and> aggregateRecords le records2 d True act = map toShare (aggregateRecords le records2 d False act)
   \<and> (non_negative records2 \<longrightarrow>
        (\<forall>bar \<in> set (aggregateRecords le records2 d False act).
           AggregatedBar.total bar = 0 \<longrightarrow>
           Map_keys (AggregatedBar.values (toShare bar)) = category_keys
           \<and> list_all (\<lambda>(k, v). v = 0) (AggregatedBar.values (toShare bar))))
   \<and> (\<forall>cell \<in> set (prepareCells records3 g s True).
        yearTotal (case Map_get (collectByYear records3 g s) (HeatmapCell.year cell) of
                     Some m \<Rightarrow> m | None \<Rightarrow> []) = 0 \<longrightarrow>
        HeatmapCell.value cell = None)"
proof (intro conjI ballI impI)
  fix p l
  assume "p \<in> set (snd (buildSeries records1 labels))" "PointShare.total p = 0"
    "l \<in> set longrun_SERIES_LABELS"
  then show "Map_get (PointShare.shares p) (keyForLabel l) = Some (Num 0)"
    by (rule longrun_zero_total)
next
  show "aggregateRecords le records2 d True act = map toShare (aggregateRecords le records2 d False act)"
    by (rule aggregate_shared)
next
  fix bar
  assume "non_negative records2" "bar \<in> set (aggregateRecords le records2 d False act)"
  then have "bar_ok True bar" by (intro aggregate_unshared_ok) simp_all
  then show "Map_keys (AggregatedBar.values (toShare bar)) = category_keys"
    by (simp add: toShare_keys bar_ok_def)
next
  fix bar
  assume "non_negative records2" "bar \<in> set (aggregateRecords le records2 d False act)"
  then have "bar_ok True bar" by (intro aggregate_unshared_ok) simp_all
  moreover assume "AggregatedBar.total bar = 0"
  ultimately show "list_all (\<lambda>(k, v). v = 0) (AggregatedBar.values (toShare bar))"
    by (rule toShare_zero_total)
next
  fix cell
  assume "cell \<in> set (prepareCells records3 g s True)"
    "yearTotal (case Map_get (collectByYear records3 g s) (HeatmapCell.year cell) of
                     Some m \<Rightarrow> m | None \<Rightarrow> []) = 0"
  then show "HeatmapCell.value cell = None"
    by (rule seasonality_zero_total)
qed

theorem zero_total_shares_witness:
  "map PointShare.shares (snd (buildSeries (zero_quarter ''Litres of Beverage'' ''Total beer'') longrun_SERIES_LABELS))
     = [[(''total-beer'', Num 0), (''total-wine'', Num 0), (''total-spirits'', Num 0)]]
   \<and> map AggregatedBar.values
        (aggregateRecords codeunit_le (zero_quarter ''Litres of Beverage'' strong_beer) True True {keyForLabel strong_beer})
     = [[(''beer-containing-not-more-than-1-150-alcohol'', 0),
         (''beer-containing-between-1-151-and-2-500-alc'', 0),
         (''beer-containing-between-2-501-and-4-350-alc'', 0),
         (''beer-containing-between-4-351-and-5-000-alc'', 0),
         (''beer-containing-more-than-5-00-alcohol'', 0)]]
   \<and> map HeatmapCell.value
        (prepareCells (zero_quarter ''Litres of Beverage'' ''Beer'') ''Litres of Beverage'' ''Beer'' True)
     = [None, None, None, None]"
proof -
  have p: "snd (buildSeries (zero_quarter ''Litres of Beverage'' ''Total beer'') longrun_SERIES_LABELS)
     = [\<lparr>PointShare.date = 24003, total = 0,
         shares = [(''total-beer'', Num 0), (''total-wine'', Num 0), (''total-spirits'', Num 0)]\<rparr>]"
    by code_simp
  have b: "aggregateRecords codeunit_le (zero_quarter ''Litres of Beverage'' strong_beer) True False {keyForLabel strong_beer}
     = [\<lparr>AggregatedBar.key = ''2000s'', label = ''2000-2009'', total = 0,
         values = [(''beer-containing-not-more-than-1-150-alcohol'', 0),
         (''beer-containing-between-1-151-and-2-500-alc'', 0),
         (''beer-containing-between-2-501-and-4-350-alc'', 0),
         (''beer-containing-between-4-351-and-5-000-alc'', 0),
         (''beer-containing-more-than-5-00-alcohol'', 0)]\<rparr>]"
    by code_simp
  have n: "non_negative (zero_quarter ''Litres of Beverage'' strong_beer)"
    by (simp add: non_negative_def zero_quarter_def record_of_def)
  have c: "prepareCells (zero_quarter ''Litres of Beverage'' ''Beer'') ''Litres of Beverage'' ''Beer'' True
     = [\<lparr>HeatmapCell.year = 2000, month = 3, value = None\<rparr>,
        \<lparr>HeatmapCell.year = 2000, month = 6, value = None\<rparr>,
        \<lparr>HeatmapCell.year = 2000, month = 9, value = None\<rparr>,
        \<lparr>HeatmapCell.year = 2000, month = 12, value = None\<rparr>]"
    by code_simp
  show ?thesis
    using zero_total_shares [of "zero_quarter ''Litres of Beverage'' ''Total beer''" longrun_SERIES_LABELS
        codeunit_le "zero_quarter ''Litres of Beverage'' strong_beer" True "{keyForLabel strong_beer}"
        "zero_quarter ''Litres of Beverage'' ''Beer''" "''Litres of Beverage''" "''Beer''"] n
    unfolding p b c
    by (simp add: toShare_def)
qed

text \<open>
  Claim C3, as stated, fails: \<^verbatim>\<open>Beer\<close> is not one of the beer-strength categories, so
  its rows are skipped and the aggregation has no bucket.
\<close>

theorem beer_rows_counterexample:
  "aggregateRecords codeunit_le (four_quarters ''Litres of Beverage'' ''Beer'' 2020) True True
     {keyForLabel ''Beer''} = []"
  by code_simp

text \<open>
  Claim C3, amended. Given the rows of group \<^verbatim>\<open>Litres of Beverage\<close> and of one
  beer-strength category for the four quarters of one year, with the values 10, 20, 30
  and 40 and that category as the single active one, the decade-bucketed aggregation
  yields exactly one bucket, that of the year's decade. Without the share step its total
  is \<open>100\<close> and the category's value is \<open>100\<close>; with the share step the category's share is
  \<open>1\<close>, every other share is \<open>0\<close>, and the total is \<open>1\<close>.
\<close>

theorem single_category_decade_share:
  assumes "c \<in> set CATEGORY_LABELS"
  shows "aggregateRecords le (four_quarters ''Litres of Beverage'' c y) True True {keyForLabel c} =
           [\<lparr>AggregatedBar.key = string_of_int (y div 10 * 10) @ ''s'',
             label = string_of_int (y div 10 * 10) @ ''-'' @ string_of_int (y div 10 * 10 + 9),
             total = 1,
             values = Map_set (map (\<lambda>l. (keyForLabel l, 0)) CATEGORY_LABELS) (keyForLabel c) 1\<rparr>]
       \<and> aggregateRecords le (four_quarters ''Litres of Beverage'' c y) True False {keyForLabel c} =
           [\<lparr>AggregatedBar.key = string_of_int (y div 10 * 10) @ ''s'',
             label = string_of_int (y div 10 * 10) @ ''-'' @ string_of_int (y div 10 * 10 + 9),
             total = 100,
             values = Map_set (map (\<lambda>l. (keyForLabel l, 0)) CATEGORY_LABELS) (keyForLabel c) 100\<rparr>]"
  using four_quarters_shared [OF assms, of le y True] four_quarters_unshared [OF assms, of le y True]
  by (simp add: bucketKey_def bucketLabel_def)

theorem single_category_decade_share_witness:
  "aggregateRecords codeunit_le (four_quarters ''Litres of Beverage'' strong_beer 2020) True True
     {keyForLabel strong_beer} =
     [\<lparr>AggregatedBar.key = ''2020s'', label = ''2020-2029'', total = 1,
       values = [(''beer-containing-not-more-than-1-150-alcohol'', 0),
                 (''beer-containing-between-1-151-and-2-500-alc'', 0),
                 (''beer-containing-between-2-501-and-4-350-alc'', 0),
                 (''beer-containing-between-4-351-and-5-000-alc'', 0),
                 (''beer-containing-more-than-5-00-alcohol'', 1)]\<rparr>]"
proof -
  have c: "strong_beer \<in> set CATEGORY_LABELS"
    by (simp add: strong_beer_def CATEGORY_LABELS_def)
  have k: "string_of_int (2020 div 10 * 10) @ ''s'' = ''2020s''"
    by code_simp
  have l: "string_of_int (2020 div 10 * 10) @ ''-'' @ string_of_int (2020 div 10 * 10 + 9) = ''2020-2029''"
    by code_simp
  have v: "Map_set (map (\<lambda>l. (keyForLabel l, 0::real)) CATEGORY_LABELS) (keyForLabel strong_beer) 1 =
       [(''beer-containing-not-more-than-1-150-alcohol'', 0),
                 (''beer-containing-between-1-151-and-2-500-alc'', 0),
                 (''beer-containing-between-2-501-and-4-350-alc'', 0),
                 (''beer-containing-between-4-351-and-5-000-alc'', 0),
                 (''beer-containing-more-than-5-00-alcohol'', 1)]"
    by code_simp
  show ?thesis
    using single_category_decade_share [OF c, of codeunit_le 2020] unfolding k l v by simp
qed

section \<open>Verification: export rounding\<close>

lemma toFixed_Number_rounds:
  assumes "\<bar>x\<bar> < 10 ^ 21"
  shows "rounded_to d x (toFixed_Number x d)"
proof -
  define n where "n = \<lfloor>\<bar>x\<bar> * 10 ^ d + 1 / 2\<rfloor>"
  have y: "toFixed_Number x d = sgn x * of_int n / 10 ^ d"
    using assms by (simp add: toFixed_Number_def n_def)
  have p: "(10::real) ^ d > 0" by simp
  have whole: "of_int \<lfloor>toFixed_Number x d * 10 ^ d\<rfloor> = toFixed_Number x d * 10 ^ d"
  proof -
    have "toFixed_Number x d * 10 ^ d = sgn x * of_int n" unfolding y using p by simp
    moreover have "sgn x * of_int n \<in> \<int>"
      by (cases "x < 0"; cases "x = 0") (simp_all add: sgn_if)
    ultimately show ?thesis by (auto simp: Ints_def)
  qed
  have lo: "\<bar>x\<bar> * 10 ^ d - 1 / 2 < of_int n" and hi: "of_int n \<le> \<bar>x\<bar> * 10 ^ d + 1 / 2"
    unfolding n_def by linarith+
  have half: "\<bar>of_int n - \<bar>x\<bar> * 10 ^ d\<bar> \<le> 1 / 2" using lo hi by linarith
  have diff: "toFixed_Number x d - x = sgn x * ((of_int n - \<bar>x\<bar> * 10 ^ d) / 10 ^ d)"
    unfolding y using p by (simp add: field_simps sgn_if)
  have "\<bar>toFixed_Number x d - x\<bar> = \<bar>sgn x\<bar> * (\<bar>of_int n - \<bar>x\<bar> * 10 ^ d\<bar> / 10 ^ d)"
    unfolding diff by (simp add: abs_mult)
  also have "\<dots> \<le> 1 * (\<bar>of_int n - \<bar>x\<bar> * 10 ^ d\<bar> / 10 ^ d)"
    by (rule mult_right_mono) (simp_all add: sgn_if)
  also have "\<dots> \<le> 1 * ((1 / 2) / 10 ^ d)"
  proof -
    have "\<bar>of_int n - \<bar>x\<bar> * 10 ^ d\<bar> / 10 ^ d \<le> (1 / 2) / 10 ^ d"
      using half by (rule divide_right_mono) simp
    then show ?thesis by simp
  qed
  finally have near: "\<bar>toFixed_Number x d - x\<bar> \<le> 1 / (2 * 10 ^ d)"
    by simp
  show ?thesis unfolding rounded_to_def using whole near by simp
qed

lemma spirits_columns:
  "map SpiritsRow.litres (spirits_exportRows text_of ps)
     = map (map_option (\<lambda>x. toFixed_Number x 3) \<circ> SpiritsPoint.litres) ps
   \<and> map SpiritsRow.proof (spirits_exportRows text_of ps)
     = map (map_option (\<lambda>x. toFixed_Number x 3) \<circ> SpiritsPoint.proof) ps
   \<and> map SpiritsRow.ratio (spirits_exportRows text_of ps)
     = map (map_option (\<lambda>x. toFixed_Number x 3) \<circ> SpiritsPoint.ratio) ps"
  by (induction ps) (auto simp: spirits_exportRows_def split: option.splits)

lemma seasonality_columns:
  "map HeatmapCell.value (seasonality_exportRows cells n)
     = map (map_option (\<lambda>x. toFixed_Number x (if n then 4 else 3)) \<circ> HeatmapCell.value) cells"
  by (induction cells) (auto simp: seasonality_exportRows_def split: option.splits)

lemma share_columns_of_point:
  "concat (map (\<lambda>label'.
             if keyForLabel label' \<notin> act then []
             else [(keyForLabel label' @ ''_share'',
                    toFixed_jsnum (case Map_get sh (keyForLabel label') of
                                     None \<Rightarrow> Num 0 | Some s \<Rightarrow> s) 4)]) ls)
     = map (\<lambda>k. (k @ ''_share'',
                  toFixed_jsnum (case Map_get sh k of None \<Rightarrow> Num 0 | Some s \<Rightarrow> s) 4))
         (filter (\<lambda>k. k \<in> act) (map keyForLabel ls))"
  by (induction ls) auto

lemma longrun_columns:
  "map LongRunRow.total_litres (createExportRows gy gm records grp act)
     = map (\<lambda>p. toFixed_Number (PointShare.total p) 3)
         (snd (buildSeries (collectGroupData records grp) longrun_SERIES_LABELS))
   \<and> map LongRunRow.share_columns (createExportRows gy gm records grp act)
     = map (\<lambda>p. map (\<lambda>k. (k @ ''_share'',
                            toFixed_jsnum (case Map_get (PointShare.shares p) k of
                                             Some s \<Rightarrow> s | None \<Rightarrow> Num 0) 4))
                   (filter (\<lambda>k. k \<in> act) (map keyForLabel longrun_SERIES_LABELS)))
         (snd (buildSeries (collectGroupData records grp) longrun_SERIES_LABELS))"
  by (simp add: createExportRows_def Let_def comp_def share_columns_of_point)

lemma for_each_map: "for_each (\<lambda>x. body (f x)) xs = for_each body (map f xs)"
  by (induction xs) (auto split: sum.splits)

lemma columns_of_sublist:
  assumes "\<forall>(k, v) \<in> set m. Map_get M k = Some v"
  shows "for_each (\<lambda>k. if k \<notin> A then Inr []
                        else (case Map_get M k of None \<Rightarrow> Inl TypeError
                              | Some v \<Rightarrow> Inr [(k, g v)])) (map fst m)
           = Inr (map (\<lambda>(k, v). (k, g v)) (filter (\<lambda>(k, v). k \<in> A) m))"
  using assms by (induction m) auto

lemma columns_of_object:
  assumes "distinct (Map_keys M)"
  shows "for_each (\<lambda>k. if k \<notin> A then Inr []
                        else (case Map_get M k of None \<Rightarrow> Inl TypeError
                              | Some v \<Rightarrow> Inr [(k, g v)])) (Map_keys M)
           = Inr (map (\<lambda>(k, v). (k, g v)) (filter (\<lambda>(k, v). k \<in> A) M))"
  unfolding Map_keys_def
proof (rule columns_of_sublist)
  show "\<forall>(k, v) \<in> set M. Map_get M k = Some v"
    using assms by (auto simp: Map_get_def Map_keys_def)
qed

lemma beerRow_ok:
  assumes "Map_keys (AggregatedBar.values bar) = category_keys"
  shows "beerRow sh act bar =
           Inr \<lparr>BeerRow.period = AggregatedBar.label bar,
                total = toFixed_Number (AggregatedBar.total bar) (if sh then 4 else 3),
                category_columns =
                  map (\<lambda>(k, v). (k, toFixed_Number v (if sh then 4 else 3)))
                    (filter (\<lambda>(k, v). k \<in> act) (AggregatedBar.values bar))\<rparr>"
proof -
  have d: "distinct (Map_keys (AggregatedBar.values bar))"
    using assms distinct_category_keys by simp
  have "for_each (\<lambda>label'.
               let k = keyForLabel label'
               in if k \<notin> act then Inr []
                  else (case Map_get (AggregatedBar.values bar) k of
                          None \<Rightarrow> Inl TypeError
                        | Some v \<Rightarrow> Inr [(k, toFixed_Number v (if sh then 4 else 3))]))
             CATEGORY_LABELS
        = Inr (map (\<lambda>(k, v). (k, toFixed_Number v (if sh then 4 else 3)))
                    (filter (\<lambda>(k, v). k \<in> act) (AggregatedBar.values bar)))"
    unfolding Let_def
    using columns_of_object [OF d, of act "\<lambda>v. toFixed_Number v (if sh then 4 else 3)"]
    unfolding assms category_keys_def
    by (simp only: for_each_map [of _ keyForLabel CATEGORY_LABELS, symmetric])
  then show ?thesis by (simp add: beerRow_def)
qed

lemma aggregate_keys:
  assumes "bar \<in> set (aggregateRecords le records d sh act)"
  shows "Map_keys (AggregatedBar.values bar) = category_keys"
proof (cases sh)
  case False
  then have "bar_ok False bar" using assms by (intro aggregate_unshared_ok [of False]) simp_all
  then show ?thesis by (simp add: bar_ok_def)
next
  case True
  then obtain b where b: "b \<in> set (aggregateRecords le records d False act)" and "bar = toShare b"
    using assms by (auto simp: aggregate_shared)
  moreover have "bar_ok False b" using b by (intro aggregate_unshared_ok [of False]) simp_all
  ultimately show ?thesis by (simp add: toShare_keys bar_ok_def)
qed

lemma beerstrength_rows:
  "beerstrength_exportRows le records d sh act =
     Inr (map (\<lambda>bar.
            \<lparr>BeerRow.period = AggregatedBar.label bar,
             total = toFixed_Number (AggregatedBar.total bar) (if sh then 4 else 3),
             category_columns =
               map (\<lambda>(k, v). (k, toFixed_Number v (if sh then 4 else 3)))
                 (filter (\<lambda>(k, v). k \<in> act) (AggregatedBar.values bar))\<rparr>)
          (aggregateRecords le records d sh act))"
proof -
  let ?row = "\<lambda>bar.
            \<lparr>BeerRow.period = AggregatedBar.label bar,
             total = toFixed_Number (AggregatedBar.total bar) (if sh then 4 else 3),
             category_columns =
               map (\<lambda>(k, v). (k, toFixed_Number v (if sh then 4 else 3)))
                 (filter (\<lambda>(k, v). k \<in> act) (AggregatedBar.values bar))\<rparr>"
  have "for_each (\<lambda>bar. case beerRow sh act bar of Inl e \<Rightarrow> Inl e | Inr row \<Rightarrow> Inr [row])
          (aggregateRecords le records d sh act)
        = Inr (concat (map (\<lambda>bar. [?row bar]) (aggregateRecords le records d sh act)))"
    by (rule for_each_Inr) (simp add: beerRow_ok aggregate_keys)
  then show ?thesis by (simp add: beerstrength_exportRows_def Let_def)
qed

lemma set_fromEntries: "set (fromEntries es) \<subseteq> set es"
proof -
  have "set (foldl (\<lambda>obj (k, v). Map_set obj k v) acc es) \<subseteq> set acc \<union> set es" for acc
  proof (induction es arbitrary: acc)
    case Nil
    show ?case by simp
  next
    case (Cons e es)
    obtain k v where e: "e = (k, v)" by (cases e)
    have "set (Map_set acc k v) \<subseteq> insert (k, v) (set acc)" by (rule set_Map_set)
    then show ?case using Cons [of "Map_set acc k v"] e by auto
  qed
  from this [of "[]"] show ?thesis by (simp add: fromEntries_def)
qed

lemma percapita_columns:
  "map PerCapitaRow.series_columns (percapita_exportRows gy gm cs) =
     (case cs of
        [] \<Rightarrow> []
      | first # _ \<Rightarrow>
          map (\<lambda>index. fromEntries (map (\<lambda>series.
                 (SeriesData.key series,
                  Option.bind (at_index (SeriesData.values series) index)
                    (\<lambda>point. map_option (\<lambda>x. toFixed_Number x 3) (SeriesPoint.value point))))
                 cs))
            [0..<length (SeriesData.values first)])"
proof -
  have c: "(case at_index vs index of
              None \<Rightarrow> None
            | Some point \<Rightarrow>
                (case SeriesPoint.value point of
                   None \<Rightarrow> None
                 | Some v \<Rightarrow> Some (toFixed_Number v 3)))
           = Option.bind (at_index vs index)
               (\<lambda>point. map_option (\<lambda>x. toFixed_Number x 3) (SeriesPoint.value point))"
    for vs :: "SeriesPoint list" and index
    by (simp split: option.splits)
  show ?thesis
    by (cases cs) (simp_all add: percapita_exportRows_def Let_def o_def c)
qed

text \<open>
  Claim C2, as stated, fails for the spirits unit check: its export rounds the
  litres/proof ratio to three decimal digits, not four. With one litre against three
  proof litres the ratio \<open>1/3\<close> is exported as \<open>0.333\<close>, which is not \<open>1/3\<close> rounded to four
  digits.
\<close>

theorem spirits_ratio_digits_counterexample:
  "map SpiritsPoint.ratio (preparePoints one_third) = [Some (1 / 3)]
   \<and> map SpiritsRow.ratio (spirits_exportRows epoch_text (preparePoints one_third)) = [Some (333 / 1000)]
   \<and> \<not> rounded_to 4 (1 / 3) (333 / 1000)"
proof -
  have p: "preparePoints one_third =
      [\<lparr>SpiritsPoint.date = 0, period = ''1970'', litres = Some 1, proof = Some 3, ratio = Some (1 / 3)\<rparr>]"
    by code_simp
  have r: "toFixed_Number (1 / 3) 3 = 333 / 1000"
    by (simp add: toFixed_Number_def)
  show ?thesis
    unfolding p by (simp add: spirits_exportRows_def r rounded_to_def)
qed

text \<open>
  Claim C2, amended. Every export rounds its measures with \<^verbatim>\<open>Number(x.toFixed(d))\<close>,
  which, below \<open>10\<^sup>2\<^sup>1\<close> in size, is \<open>x\<close> rounded to \<open>d\<close> decimal digits. Raw volumes take
  three digits: the litres and proof litres of the spirits check, the per-head values,
  the long-run total, the heatmap values and the beer-strength totals and values outside
  share mode. Shares take four digits: the long-run shares, the normalized heatmap values
  and the beer-strength values and total in share mode. The litres/proof ratio of the
  spirits check takes three digits.
\<close>

theorem export_rounding:
  "(\<bar>x\<bar> < 10 ^ 21 \<longrightarrow> rounded_to dg x (toFixed_Number x dg))
   \<and> map SpiritsRow.litres (spirits_exportRows text_of ps)
       = map (map_option (\<lambda>x. toFixed_Number x 3) \<circ> SpiritsPoint.litres) ps
   \<and> map SpiritsRow.proof (spirits_exportRows text_of ps)
       = map (map_option (\<lambda>x. toFixed_Number x 3) \<circ> SpiritsPoint.proof) ps
   \<and> map SpiritsRow.ratio (spirits_exportRows text_of ps)
       = map (map_option (\<lambda>x. toFixed_Number x 3) \<circ> SpiritsPoint.ratio) ps
   \<and> map PerCapitaRow.series_columns (percapita_exportRows fullYear monthOf cs)
       = (case cs of
            [] \<Rightarrow> []
          | first # _ \<Rightarrow>
              map (\<lambda>index. fromEntries (map (\<lambda>series.
                     (SeriesData.key series,
                      Option.bind (at_index (SeriesData.values series) index)
                        (\<lambda>point. map_option (\<lambda>x. toFixed_Number x 3) (SeriesPoint.value point))))
                     cs))
                [0..<length (SeriesData.values first)])
   \<and> map LongRunRow.total_litres (createExportRows fullYear monthOf records1 grp act1)
       = map (\<lambda>p. toFixed_Number (PointShare.total p) 3)
           (snd (buildSeries (collectGroupData records1 grp) longrun_SERIES_LABELS))
   \<and> map LongRunRow.share_columns (createExportRows fullYear monthOf records1 grp act1)
       = map (\<lambda>p. map (\<lambda>k. (k @ ''_share'',
                              toFixed_jsnum (case Map_get (PointShare.shares p) k of
                                               Some s \<Rightarrow> s | None \<Rightarrow> Num 0) 4))
                     (filter (\<lambda>k. k \<in> act1) (map keyForLabel longrun_SERIES_LABELS)))
           (snd (buildSeries (collectGroupData records1 grp) longrun_SERIES_LABELS))
   \<and> map HeatmapCell.value (seasonality_exportRows cells n)
       = map (map_option (\<lambda>x. toFixed_Number x (if n then 4 else 3)) \<circ> HeatmapCell.value) cells
   \<and> beerstrength_exportRows le records2 d sh act2 =
       Inr (map (\<lambda>bar.
              \<lparr>BeerRow.period = AggregatedBar.label bar,
               total = toFixed_Number (AggregatedBar.total bar) (if sh then 4 else 3),
               category_columns =
                 map (\<lambda>(k, v). (k, toFixed_Number v (if sh then 4 else 3)))
                   (filter (\<lambda>(k, v). k \<in> act2) (AggregatedBar.values bar))\<rparr>)
            (aggregateRecords le records2 d sh act2))"
proof (intro conjI)
  show "\<bar>x\<bar> < 10 ^ 21 \<longrightarrow> rounded_to dg x (toFixed_Number x dg)"
    using toFixed_Number_rounds by blast
qed (simp_all only: spirits_columns seasonality_columns longrun_columns beerstrength_rows
       percapita_columns)

theorem export_rounding_witness:
  "rounded_to 3 (1 / 3) (toFixed_Number (1 / 3) 3)
   \<and> map SpiritsRow.ratio (spirits_exportRows epoch_text (preparePoints one_third))
       = [Some (toFixed_Number (1 / 3) 3)]
   \<and> toFixed_Number (1 / 3) 3 = 333 / 1000
   \<and> map PerCapitaRow.series_columns (percapita_exportRows epoch_year epoch_month [thirds, short_series])
       = [[(''A'', Some (333 / 1000)), (''B'', None)], [(''A'', Some (667 / 1000)), (''B'', None)]]
   \<and> map PerCapitaRow.series_columns (percapita_exportRows epoch_year epoch_month [thirds, short_series])
       = map (\<lambda>index. fromEntries (map (\<lambda>series.
                (SeriesData.key series,
                 Option.bind (at_index (SeriesData.values series) index)
                   (\<lambda>point. map_option (\<lambda>x. toFixed_Number x 3) (SeriesPoint.value point))))
                [thirds, short_series]))
           [0..<length (SeriesData.values thirds)]"
proof -
  have p: "preparePoints one_third =
      [\<lparr>SpiritsPoint.date = 0, period = ''1970'', litres = Some 1, proof = Some 3, ratio = Some (1 / 3)\<rparr>]"
    by code_simp
  have r: "map PerCapitaRow.series_columns (percapita_exportRows epoch_year epoch_month [thirds, short_series])
       = [[(''A'', Some (333 / 1000)), (''B'', None)], [(''A'', Some (667 / 1000)), (''B'', None)]]"
    by code_simp
  have f: "toFixed_Number (1 / 3) 3 = 333 / 1000"
    by (simp add: toFixed_Number_def)
  have b: "\<bar>1 / 3 :: real\<bar> < 10 ^ 21" by simp
  note e = export_rounding [of "1 / 3" 3 epoch_text "preparePoints one_third" epoch_year epoch_month
        "[thirds, short_series]"]
  have e1: "rounded_to 3 (1 / 3) (toFixed_Number (1 / 3) 3)"
    using e b by blast
  have e2: "map SpiritsRow.ratio (spirits_exportRows epoch_text (preparePoints one_third))
       = [Some (toFixed_Number (1 / 3) 3)]"
    using e unfolding p by simp
  have e3: "map PerCapitaRow.series_columns (percapita_exportRows epoch_year epoch_month [thirds, short_series])
       = map (\<lambda>index. fromEntries (map (\<lambda>series.
                (SeriesData.key series,
                 Option.bind (at_index (SeriesData.values series) index)
                   (\<lambda>point. map_option (\<lambda>x. toFixed_Number x 3) (SeriesPoint.value point))))
                [thirds, short_series]))
           [0..<length (SeriesData.values thirds)]"
    using e by simp
  from e1 e2 f r e3 show ?thesis by (intro conjI)
qed

end
